theory Spec2Isabelle
  imports Main "HOL-Library.Multiset" "HOL-Library.Sublist"
begin

section \<open>Data model of \<^verbatim>\<open>internal/services/iqreport.go\<close>\<close>

text \<open>
  Go strings are byte sequences; they are modelled as \<^typ>\<open>string\<close>, one \<^typ>\<open>char\<close> per byte.
  A Go \<^verbatim>\<open>error\<close> value is either produced by \<^verbatim>\<open>fmt.Errorf(msg)\<close> or wraps another error
  with \<^verbatim>\<open>fmt.Errorf(msg + ": %w", err)\<close>; errors of the collaborators are values of the
  same type.
\<close>

datatype error = Errorf string | Wrapf string error

text \<open>
  The structs of the packages \<^verbatim>\<open>client\<close> and \<^verbatim>\<open>report\<close> are declared outside the file; they
  are modelled with the fields the file reads and writes. The type of the field
  \<^verbatim>\<open>Threat\<close> is left open.
\<close>

record Application =
  ID :: string
  PublicID :: string
  OrganizationID :: string

record Organization =
  ID :: string
  Name :: string

record ReportInfo =
  ReportHTMLURL :: string
  Stage :: string

record 't ViolationRow =
  Application :: string
  Organization :: string
  Policy :: string
  Format :: string
  Component :: string
  Threat :: 't
  PolicyAction :: string
  ConstraintName :: string
  Condition :: string
  CVE :: string

record 't Row =
  Application :: string
  Organization :: string
  Policy :: string
  Format :: string
  Component :: string
  Threat :: 't
  PolicyAction :: string
  ConstraintName :: string
  Condition :: string
  CVE :: string

text \<open>\<^verbatim>\<open>AppReportResult\<close>: the rows of one application and an error, which may be nil.\<close>

record 't AppReportResult =
  Rows :: "'t Row list"
  Err :: "error option"

text \<open>\<^verbatim>\<open>config.Config\<close>: the file reads \<^verbatim>\<open>OutputDir\<close> only; whatever else the
  configuration holds is the extension of the record.\<close>

record Config =
  OutputDir :: string

section \<open>The library functions the file calls\<close>

subsection \<open>\<^verbatim>\<open>strings.TrimSpace\<close>\<close>

text \<open>
  \<^verbatim>\<open>strings.TrimSpace\<close> removes leading and trailing white space as Unicode defines it
  (\<^verbatim>\<open>unicode.IsSpace\<close>). On the bytes of a string these are the UTF-8 encodings of
  U+0009..U+000D, U+0020, U+0085, U+00A0, U+1680, U+2000..U+200A, U+2028, U+2029, U+202F,
  U+205F and U+3000; a byte that starts none of them (an invalid byte too) is not white
  space.
\<close>

definition space_runes :: "string list" where
  "space_runes =
     [[CHR 0x09], [CHR 0x0A], [CHR 0x0B], [CHR 0x0C], [CHR 0x0D], [CHR 0x20],
      [CHR 0xC2, CHR 0x85], [CHR 0xC2, CHR 0xA0],
      [CHR 0xE1, CHR 0x9A, CHR 0x80],
      [CHR 0xE2, CHR 0x80, CHR 0x80], [CHR 0xE2, CHR 0x80, CHR 0x81],
      [CHR 0xE2, CHR 0x80, CHR 0x82], [CHR 0xE2, CHR 0x80, CHR 0x83],
      [CHR 0xE2, CHR 0x80, CHR 0x84], [CHR 0xE2, CHR 0x80, CHR 0x85],
      [CHR 0xE2, CHR 0x80, CHR 0x86], [CHR 0xE2, CHR 0x80, CHR 0x87],
      [CHR 0xE2, CHR 0x80, CHR 0x88], [CHR 0xE2, CHR 0x80, CHR 0x89],
      [CHR 0xE2, CHR 0x80, CHR 0x8A],
      [CHR 0xE2, CHR 0x80, CHR 0xA8], [CHR 0xE2, CHR 0x80, CHR 0xA9],
      [CHR 0xE2, CHR 0x80, CHR 0xAF],
      [CHR 0xE2, CHR 0x81, CHR 0x9F],
      [CHR 0xE3, CHR 0x80, CHR 0x80]]"

text \<open>The width in bytes of the white-space rune a string starts (ends) with; 0 when it
  starts (ends) with none.\<close>

definition leading_space :: "string \<Rightarrow> nat" where
  "leading_space s = (case find (\<lambda>w. prefix w s) space_runes of None \<Rightarrow> 0 | Some w \<Rightarrow> length w)"

definition trailing_space :: "string \<Rightarrow> nat" where
  "trailing_space s = (case find (\<lambda>w. suffix w s) space_runes of None \<Rightarrow> 0 | Some w \<Rightarrow> length w)"

function TrimLeftSpace :: "string \<Rightarrow> string" where
  "TrimLeftSpace s =
     (if leading_space s = 0 then s else TrimLeftSpace (drop (leading_space s) s))"
  by pat_completeness auto
termination
proof (relation "measure length")
  fix s :: string
  assume "leading_space s \<noteq> 0"
  moreover have "leading_space s \<le> length s"
    by (auto simp: leading_space_def find_Some_iff prefix_def split: option.splits)
  ultimately show "(drop (leading_space s) s, s) \<in> measure length" by simp
qed simp

function TrimRightSpace :: "string \<Rightarrow> string" where
  "TrimRightSpace s =
     (if trailing_space s = 0 then s
      else TrimRightSpace (take (length s - trailing_space s) s))"
  by pat_completeness auto
termination
proof (relation "measure length")
  fix s :: string
  assume "trailing_space s \<noteq> 0"
  moreover have "trailing_space s \<le> length s"
    by (auto simp: trailing_space_def find_Some_iff suffix_def split: option.splits)
  ultimately show "(take (length s - trailing_space s) s, s) \<in> measure length" by simp
qed simp

declare TrimLeftSpace.simps [simp del] TrimRightSpace.simps [simp del]

definition TrimSpace :: "string \<Rightarrow> string" where
  "TrimSpace s = TrimRightSpace (TrimLeftSpace s)"

subsection \<open>\<^verbatim>\<open>strings.Index\<close> and \<^verbatim>\<open>strings.Cut\<close>\<close>

text \<open>\<^verbatim>\<open>strings.Index(s, sep)\<close> is the index of the first instance of \<^verbatim>\<open>sep\<close> in \<^verbatim>\<open>s\<close>, or
  -1 (here \<^const>\<open>None\<close>) when there is none.\<close>

fun Index :: "string \<Rightarrow> string \<Rightarrow> nat option" where
  "Index [] sep = (if sep = [] then Some 0 else None)"
| "Index (c # cs) sep =
     (if prefix sep (c # cs) then Some 0 else map_option Suc (Index cs sep))"

text \<open>\<^verbatim>\<open>strings.Cut(s, sep)\<close> returns \<^verbatim>\<open>s[:i], s[i+len(sep):], true\<close> for \<^verbatim>\<open>i = Index(s, sep)\<close>
  when \<^verbatim>\<open>i >= 0\<close>, and \<^verbatim>\<open>s, "", false\<close> otherwise.\<close>

definition Cut :: "string \<Rightarrow> string \<Rightarrow> string \<times> string \<times> bool" where
  "Cut s sep =
     (case Index s sep of
        Some i \<Rightarrow> (take i s, drop (i + length sep) s, True)
      | None \<Rightarrow> (s, [], False))"

section \<open>Collaborators\<close>

text \<open>
  The context is used through \<^verbatim>\<open>ctx.Done()\<close> and \<^verbatim>\<open>ctx.Err()\<close> only: it is modelled by the
  flag "cancelled". Every remote operation of \<^verbatim>\<open>client.Client\<close> receives the flag as it is at
  the call, so a collaborator may answer a cancelled context with an error. A Go result
  pair \<^verbatim>\<open>(value, err)\<close> is a sum, \<^const>\<open>Inl\<close> the error, because the file reads the value
  only when the error is nil. An operation answers as a function of its arguments and of the
  flag. \<^verbatim>\<open>report.WriteCSV\<close> (nil, here \<^const>\<open>None\<close>, on success) and \<^verbatim>\<open>filepath.Join\<close> are
  parameters too.
\<close>

record 't Client =
  GetApplications :: "bool \<Rightarrow> string option \<Rightarrow> error + Application list"
  GetOrganizations :: "bool \<Rightarrow> error + Organization list"
  GetLatestReportInfo :: "bool \<Rightarrow> string \<Rightarrow> error + ReportInfo option"
  GetPolicyViolations :: "bool \<Rightarrow> string \<Rightarrow> string \<Rightarrow> string \<Rightarrow> error + 't ViolationRow list"

text \<open>\<^verbatim>\<open>IQReportService\<close>; what its logger writes for one application is kept in the state
  of the run.\<close>

record ('t, 'c) IQReportService =
  cfg :: "'c Config_scheme"
  cl :: "'t Client"

text \<open>The functions of other packages the call uses after the concurrent part.\<close>

record 't Packages =
  WriteCSV :: "string \<Rightarrow> 't Row list \<Rightarrow> error option"
  Join :: "string \<Rightarrow> string \<Rightarrow> string"

text \<open>The remote operations and the write, as the run performs them, with their arguments.\<close>

datatype 't remote_call =
    CallGetApplications "string option"
  | CallGetOrganizations
  | CallGetLatestReportInfo string
  | CallGetPolicyViolations string string string
  | CallWriteCSV string "'t Row list"

text \<open>The messages of \<^verbatim>\<open>appLogger\<close>, with the two identifiers the logger carries.\<close>

datatype level = Debug | Info | Warn | Error

record LogEntry =
  lvl :: level
  appPublicID :: string
  appInternalID :: string
  msg :: string

section \<open>Channels\<close>

text \<open>A buffered Go channel: the queue of values sent and not yet received, the capacity
  given to \<^verbatim>\<open>make\<close>, and whether \<^verbatim>\<open>close\<close> has been called.\<close>

record 'a chan =
  buf :: "'a list"
  cap :: nat
  closed :: bool

definition make_chan :: "nat \<Rightarrow> 'a chan" where
  "make_chan n = \<lparr>buf = [], cap = n, closed = False\<rparr>"

definition can_send :: "'a chan \<Rightarrow> bool" where
  "can_send c \<longleftrightarrow> length (buf c) < cap c"

definition can_recv :: "'a chan \<Rightarrow> bool" where
  "can_recv c \<longleftrightarrow> buf c \<noteq> []"

definition chan_send :: "'a \<Rightarrow> 'a chan \<Rightarrow> 'a chan" where
  "chan_send v c = c\<lparr>buf := buf c @ [v]\<rparr>"

definition chan_recv :: "'a chan \<Rightarrow> 'a chan" where
  "chan_recv c = c\<lparr>buf := tl (buf c)\<rparr>"

section \<open>The row mapper (lines 148 to 162)\<close>

definition to_report_row :: "'t ViolationRow \<Rightarrow> 't Row" where
  "to_report_row r =
     \<lparr>Row.Application = ViolationRow.Application r,
      Row.Organization = ViolationRow.Organization r,
      Row.Policy = ViolationRow.Policy r,
      Row.Format = ViolationRow.Format r,
      Row.Component = ViolationRow.Component r,
      Row.Threat = ViolationRow.Threat r,
      Row.PolicyAction = ViolationRow.PolicyAction r,
      Row.ConstraintName = ViolationRow.ConstraintName r,
      Row.Condition = ViolationRow.Condition r,
      Row.CVE = ViolationRow.CVE r\<rparr>"

text \<open>The loop that fills \<^verbatim>\<open>reportRows[i]\<close> from \<^verbatim>\<open>clientRows[i]\<close>, for \<^verbatim>\<open>i\<close> from 0.\<close>

fun convert_rows :: "'t ViolationRow list \<Rightarrow> 't Row list" where
  "convert_rows [] = []"
| "convert_rows (r # rs) = to_report_row r # convert_rows rs"

section \<open>The organization table (lines 69 to 72)\<close>

fun build_orgIDToName :: "Organization list \<Rightarrow> (string \<rightharpoonup> string) \<Rightarrow> (string \<rightharpoonup> string)" where
  "build_orgIDToName [] m = m"
| "build_orgIDToName (org # orgs) m =
     build_orgIDToName orgs (m(Organization.ID org \<mapsto> Organization.Name org))"

section \<open>The run as a transition system\<close>

text \<open>
  The goroutines of one run: the caller's goroutine ("main"), one goroutine for each
  application, and the goroutine that waits for the wait group and closes the results
  channel. A goroutine's position is the statement it executes next; a channel operation,
  a wait-group operation and a remote call are each one atomic step, and the runs of the
  program are the interleavings of these steps.

  Where a per-application goroutine returns, it runs its deferred calls: the release of the
  semaphore (when it was registered, line 99), then \<^verbatim>\<open>wg.Done()\<close> (line 94).

  The return statements of the goroutine, by line: \<open>AcquireCancelled\<close> 101,
  \<open>CtxErrAfterAcquire\<close> 106, \<open>ReportInfoFailed\<close> 115, \<open>NoReport\<close> 121, \<open>ParseFailed\<close> 128,
  \<open>ViolationsFailed\<close> 143; \<open>Delivered\<close> and \<open>DeliveryCancelled\<close> are the two ways out of the
  last \<^verbatim>\<open>select\<close> (lines 166 and 167), with the rows in \<^verbatim>\<open>reportRows\<close>.

  Its positions: \<open>AtAcquire\<close> is the \<^verbatim>\<open>select\<close> of line 97, \<open>AtCtxCheck\<close> the test of line
  105, \<open>AtReportInfo\<close> the call of line 112, \<open>AtViolations\<close> the call of line 140 (with
  \<^verbatim>\<open>reportID\<close> and \<^verbatim>\<open>orgName\<close>), \<open>AtDeliver\<close> the \<^verbatim>\<open>select\<close> of line 165 (with
  \<^verbatim>\<open>reportRows\<close>), \<open>AtRelease\<close> the deferred receive from the semaphore, \<open>AtWgDone\<close> the
  deferred \<^verbatim>\<open>wg.Done()\<close>; the last three carry the return statement taken.
\<close>

datatype 't exit_point =
    AcquireCancelled
  | CtxErrAfterAcquire
  | ReportInfoFailed error
  | NoReport
  | ParseFailed
  | ViolationsFailed error
  | Delivered "'t Row list"
  | DeliveryCancelled "'t Row list"

datatype 't pc =
    AtAcquire
  | AtCtxCheck
  | AtReportInfo
  | AtViolations string string
  | AtDeliver "'t Row list"
  | AtRelease "'t exit_point"
  | AtWgDone "'t exit_point"
  | Finished "'t exit_point"

datatype main_pc = Launching | Ranging | Drained

datatype closer_pc = NotStarted | Waiting | Closing | Closed

record 't state =
  ctx_done :: bool
  sem :: "unit chan"
  resultsChan :: "'t AppReportResult chan"
  wg :: nat
  tasks :: "'t pc list"
  main :: main_pc
  closer :: closer_pc
  allViolationRows :: "'t Row list"
  applog :: "LogEntry list"
  calls :: "'t remote_call list"
  panicked :: bool

text \<open>The state when the launch loop is entered (lines 80 to 82): the semaphore of capacity
  10, the results channel of capacity \<^verbatim>\<open>len(apps)\<close>, a wait group at zero.\<close>

definition init_state :: "bool \<Rightarrow> 't remote_call list \<Rightarrow> Application list \<Rightarrow> 't state" where
  "init_state ctx cs apps =
     \<lparr>ctx_done = ctx, sem = make_chan 10, resultsChan = make_chan (length apps), wg = 0,
      tasks = [], main = Launching, closer = NotStarted, allViolationRows = [],
      applog = [], calls = cs, panicked = False\<rparr>"

definition app_logs :: "Application \<Rightarrow> (level \<times> string) list \<Rightarrow> 't state \<Rightarrow> 't state" where
  "app_logs app ls st =
     st\<lparr>applog := applog st @
        map (\<lambda>(l, m). \<lparr>lvl = l, appPublicID = PublicID app,
                        appInternalID = Application.ID app, msg = m\<rparr>) ls\<rparr>"

definition goto :: "nat \<Rightarrow> 't pc \<Rightarrow> 't state \<Rightarrow> 't state" where
  "goto i p st = st\<lparr>tasks := (tasks st)[i := p]\<rparr>"

definition called :: "'t remote_call \<Rightarrow> 't state \<Rightarrow> 't state" where
  "called rc st = st\<lparr>calls := calls st @ [rc]\<rparr>"

subsection \<open>One goroutine per application (lines 93 to 169)\<close>

text \<open>Lines 112 to 137: the metadata call, the blank check, the report identifier and the
  organization name. The result is the statement the goroutine executes next and what it
  has logged.\<close>

definition fetch_report_info ::
  "'t Client \<Rightarrow> (string \<rightharpoonup> string) \<Rightarrow> bool \<Rightarrow> Application \<Rightarrow> 't pc \<times> (level \<times> string) list" where
  "fetch_report_info c orgIDToName ctx app =
     (case GetLatestReportInfo c ctx (Application.ID app) of
        Inl err \<Rightarrow>
          (AtRelease (ReportInfoFailed err), [(Error, ''failed to fetch latest report info'')])
      | Inr None \<Rightarrow>
          (AtRelease NoReport, [(Info, ''No recent report found for application, skipping'')])
      | Inr (Some reportInfo) \<Rightarrow>
          if TrimSpace (ReportHTMLURL reportInfo) = []
          then (AtRelease NoReport,
                [(Info, ''No recent report found for application, skipping'')])
          else
            (case Cut (ReportHTMLURL reportInfo) ''/report/'' of
               (before, reportID, found) \<Rightarrow>
                 if \<not> found \<or> reportID = []
                 then (AtRelease ParseFailed,
                       [(Error, ''failed to parse report ID from URL'')])
                 else
                   (case orgIDToName (OrganizationID app) of
                      Some orgName \<Rightarrow>
                        (AtViolations reportID orgName, [(Debug, ''Parsed report ID'')])
                    | None \<Rightarrow>
                        (AtViolations reportID (OrganizationID app),
                         [(Debug, ''Parsed report ID''),
                          (Warn, ''organization name not found, using ID as fallback'')]))))"

text \<open>Lines 140 to 162: the violations call and the conversion of its rows.\<close>

definition fetch_violations ::
  "'t Client \<Rightarrow> bool \<Rightarrow> Application \<Rightarrow> string \<Rightarrow> string \<Rightarrow> 't pc \<times> (level \<times> string) list" where
  "fetch_violations c ctx app reportID orgName =
     (case GetPolicyViolations c ctx (PublicID app) reportID orgName of
        Inl err \<Rightarrow>
          (AtRelease (ViolationsFailed err), [(Error, ''failed to fetch policy violations'')])
      | Inr clientRows \<Rightarrow>
          (AtDeliver (convert_rows clientRows), [(Debug, ''Fetched policy violations'')]))"

text \<open>
  A \<^verbatim>\<open>select\<close> has two cases, the channel operation and \<^verbatim>\<open><-ctx.Done()\<close>: the branch says
  which one the goroutine takes, and it can take one only when that case is ready. Every
  other statement has the branch \<open>Proceed\<close> only. A send on a closed channel and a
  \<^verbatim>\<open>wg.Done()\<close> on a counter at zero panic.
\<close>

datatype branch = Proceed | CtxDone

fun goroutine ::
  "'t Client \<Rightarrow> (string \<rightharpoonup> string) \<Rightarrow> Application \<Rightarrow> nat \<Rightarrow> branch \<Rightarrow> 't pc \<Rightarrow> 't state
     \<Rightarrow> 't state option" where
  "goroutine c m app i Proceed AtAcquire st =
     (if can_send (sem st)
      then Some (goto i AtCtxCheck (st\<lparr>sem := chan_send () (sem st)\<rparr>))
      else None)"
| "goroutine c m app i CtxDone AtAcquire st =
     (if ctx_done st then Some (goto i (AtWgDone AcquireCancelled) st) else None)"
| "goroutine c m app i Proceed AtCtxCheck st =
     (if ctx_done st then Some (goto i (AtRelease CtxErrAfterAcquire) st)
      else Some (goto i AtReportInfo st))"
| "goroutine c m app i Proceed AtReportInfo st =
     (case fetch_report_info c m (ctx_done st) app of
        (p, ls) \<Rightarrow>
          Some (goto i p (app_logs app ls
                  (called (CallGetLatestReportInfo (Application.ID app)) st))))"
| "goroutine c m app i Proceed (AtViolations reportID orgName) st =
     (case fetch_violations c (ctx_done st) app reportID orgName of
        (p, ls) \<Rightarrow>
          Some (goto i p (app_logs app ls
                  (called (CallGetPolicyViolations (PublicID app) reportID orgName) st))))"
| "goroutine c m app i Proceed (AtDeliver reportRows) st =
     (if closed (resultsChan st) then Some (st\<lparr>panicked := True\<rparr>)
      else if can_send (resultsChan st)
      then Some (goto i (AtRelease (Delivered reportRows))
                  (st\<lparr>resultsChan := chan_send \<lparr>Rows = reportRows, Err = None\<rparr> (resultsChan st)\<rparr>))
      else None)"
| "goroutine c m app i CtxDone (AtDeliver reportRows) st =
     (if ctx_done st then Some (goto i (AtRelease (DeliveryCancelled reportRows)) st) else None)"
| "goroutine c m app i Proceed (AtRelease e) st =
     (if can_recv (sem st) then Some (goto i (AtWgDone e) (st\<lparr>sem := chan_recv (sem st)\<rparr>))
      else None)"
| "goroutine c m app i Proceed (AtWgDone e) st =
     (if wg st = 0 then Some (st\<lparr>panicked := True\<rparr>)
      else Some (goto i (Finished e) (st\<lparr>wg := wg st - 1\<rparr>)))"
| "goroutine c m app i b p st = None"

subsection \<open>The caller's goroutine and the closing goroutine (lines 87 to 184)\<close>

text \<open>
  \<open>Cancel\<close> is the environment cancelling the context. \<open>Launch\<close> is one iteration of the
  launch loop (\<^verbatim>\<open>wg.Add(1)\<close> and the \<^verbatim>\<open>go\<close> statement); \<open>StartCloser\<close> leaves the loop and
  starts the closing goroutine; \<open>WaitReturns\<close> is \<^verbatim>\<open>wg.Wait()\<close> returning and \<open>CloseResults\<close>
  is \<^verbatim>\<open>close(resultsChan)\<close>; \<open>Receive\<close> is one iteration of the \<^verbatim>\<open>range\<close> loop and
  \<open>EndRange\<close> its end, on a closed and empty channel. After a panic nothing runs.
\<close>

datatype event =
    Cancel | Launch | StartCloser | Task nat branch | WaitReturns | CloseResults
  | Receive | EndRange

definition step ::
  "'t Client \<Rightarrow> (string \<rightharpoonup> string) \<Rightarrow> Application list \<Rightarrow> event \<Rightarrow> 't state \<Rightarrow> 't state option" where
  "step c m apps ev st =
     (if panicked st then None
      else case ev of
        Cancel \<Rightarrow> if ctx_done st then None else Some (st\<lparr>ctx_done := True\<rparr>)
      | Launch \<Rightarrow>
          if main st = Launching \<and> length (tasks st) < length apps
          then Some (st\<lparr>wg := wg st + 1, tasks := tasks st @ [AtAcquire]\<rparr>)
          else None
      | StartCloser \<Rightarrow>
          if main st = Launching \<and> length (tasks st) = length apps
          then Some (st\<lparr>main := Ranging, closer := Waiting\<rparr>)
          else None
      | Task i b \<Rightarrow>
          if i < length (tasks st) \<and> i < length apps
          then goroutine c m (apps ! i) i b (tasks st ! i) st
          else None
      | WaitReturns \<Rightarrow>
          if closer st = Waiting \<and> wg st = 0 then Some (st\<lparr>closer := Closing\<rparr>) else None
      | CloseResults \<Rightarrow>
          if closer st = Closing
          then (if closed (resultsChan st) then Some (st\<lparr>panicked := True\<rparr>)
                else Some (st\<lparr>resultsChan := (resultsChan st)\<lparr>closed := True\<rparr>,
                               closer := Closed\<rparr>))
          else None
      | Receive \<Rightarrow>
          if main st = Ranging \<and> can_recv (resultsChan st)
          then Some (st\<lparr>allViolationRows :=
                           allViolationRows st @ Rows (hd (buf (resultsChan st))),
                         resultsChan := chan_recv (resultsChan st)\<rparr>)
          else None
      | EndRange \<Rightarrow>
          if main st = Ranging \<and> \<not> can_recv (resultsChan st) \<and> closed (resultsChan st)
          then Some (st\<lparr>main := Drained\<rparr>)
          else None)"

text \<open>A schedule is the list of events in the order they happen; \<open>exec\<close> runs it and is
  \<^const>\<open>None\<close> when the schedule asks for a step that cannot happen.\<close>

fun exec ::
  "'t Client \<Rightarrow> (string \<rightharpoonup> string) \<Rightarrow> Application list \<Rightarrow> event list \<Rightarrow> 't state \<Rightarrow> 't state option" where
  "exec c m apps [] st = Some st"
| "exec c m apps (ev # evs) st =
     (case step c m apps ev st of None \<Rightarrow> None | Some st' \<Rightarrow> exec c m apps evs st')"

section \<open>\<^verbatim>\<open>GenerateLatestPolicyReport\<close>\<close>

text \<open>The concurrent part of a call (lines 80 to 184) under a schedule, from the state
  the sequential part leaves.\<close>

definition fan_out ::
  "('t, 'c) IQReportService \<Rightarrow> bool \<Rightarrow> string option \<Rightarrow> Application list \<Rightarrow> Organization list
     \<Rightarrow> event list \<Rightarrow> 't state option" where
  "fan_out s ctx orgID apps orgs sched =
     exec (cl s) (build_orgIDToName orgs Map.empty) apps sched
       (init_state ctx [CallGetApplications orgID, CallGetOrganizations] apps)"

text \<open>
  The result of a call: the two returned values and the remote operations performed, in
  order. The call is a function of the schedule of its concurrent part; it is \<^const>\<open>None\<close>
  when the schedule does not take the run to the end of the \<^verbatim>\<open>range\<close> loop.
\<close>

record 't result =
  ret_path :: string
  ret_err :: "error option"
  ret_calls :: "'t remote_call list"

definition GenerateLatestPolicyReport ::
  "('t, 'c) IQReportService \<Rightarrow> 't Packages \<Rightarrow> bool \<Rightarrow> string option \<Rightarrow> string \<Rightarrow> event list
     \<Rightarrow> 't result option" where
  "GenerateLatestPolicyReport s pk ctx orgID filename sched =
     (case GetApplications (cl s) ctx orgID of
        Inl err \<Rightarrow>
          Some \<lparr>ret_path = [], ret_err = Some (Wrapf ''get applications'' err),
                ret_calls = [CallGetApplications orgID]\<rparr>
      | Inr apps \<Rightarrow>
          if length apps = 0
          then Some \<lparr>ret_path = [], ret_err = Some (Errorf ''no applications found''),
                      ret_calls = [CallGetApplications orgID]\<rparr>
          else
            (case GetOrganizations (cl s) ctx of
               Inl err \<Rightarrow>
                 Some \<lparr>ret_path = [], ret_err = Some (Wrapf ''get organizations'' err),
                       ret_calls = [CallGetApplications orgID, CallGetOrganizations]\<rparr>
             | Inr orgs \<Rightarrow>
                 (case fan_out s ctx orgID apps orgs sched of
                    None \<Rightarrow> None
                  | Some st \<Rightarrow>
                      if main st \<noteq> Drained \<or> panicked st then None
                      else
                        (let target = Join pk (OutputDir (cfg s)) filename in
                         case WriteCSV pk target (allViolationRows st) of
                           Some err \<Rightarrow>
                             Some \<lparr>ret_path = [], ret_err = Some (Wrapf ''write csv'' err),
                                   ret_calls = calls st @ [CallWriteCSV target (allViolationRows st)]\<rparr>
                         | None \<Rightarrow>
                             Some \<lparr>ret_path = target, ret_err = None,
                                   ret_calls = calls st @ [CallWriteCSV target (allViolationRows st)]\<rparr>))))"

section \<open>Positions and invariants of a run\<close>

text \<open>A goroutine holds a ticket from the send on the semaphore until the deferred receive;
  it is unfinished until \<^verbatim>\<open>wg.Done()\<close> has run; it has sent rows once the send on the
  results channel has happened, and \<open>rows_sent\<close> is what it has put on the channel so far.\<close>

fun holds_ticket :: "'t pc \<Rightarrow> bool" where
  "holds_ticket AtAcquire = False"
| "holds_ticket AtCtxCheck = True"
| "holds_ticket AtReportInfo = True"
| "holds_ticket (AtViolations r n) = True"
| "holds_ticket (AtDeliver rows) = True"
| "holds_ticket (AtRelease e) = True"
| "holds_ticket (AtWgDone e) = False"
| "holds_ticket (Finished e) = False"

fun unfinished :: "'t pc \<Rightarrow> bool" where
  "unfinished (Finished e) = False"
| "unfinished p = True"

fun sent_rows :: "'t pc \<Rightarrow> 't Row list option" where
  "sent_rows (AtRelease (Delivered rows)) = Some rows"
| "sent_rows (AtWgDone (Delivered rows)) = Some rows"
| "sent_rows (Finished (Delivered rows)) = Some rows"
| "sent_rows p = None"

definition rows_sent :: "'t pc \<Rightarrow> 't Row list" where
  "rows_sent p = (case sent_rows p of None \<Rightarrow> [] | Some rows \<Rightarrow> rows)"

text \<open>A step is quiet when the goroutine keeps its ticket and has sent nothing, before and
  after; such a step leaves every shared variable but the log and the call trace as it is.\<close>

definition quiet :: "'t pc \<Rightarrow> bool" where
  "quiet p \<longleftrightarrow> holds_ticket p \<and> sent_rows p = None"

definition same_shared :: "'t state \<Rightarrow> 't state \<Rightarrow> bool" where
  "same_shared st st' \<longleftrightarrow>
     ctx_done st' = ctx_done st \<and> sem st' = sem st \<and> resultsChan st' = resultsChan st \<and>
     wg st' = wg st \<and> main st' = main st \<and> closer st' = closer st \<and>
     allViolationRows st' = allViolationRows st \<and> panicked st' = panicked st"

text \<open>The semaphore holds one token for each goroutine between acquisition and release.\<close>

definition inv_sem :: "'t state \<Rightarrow> bool" where
  "inv_sem st \<longleftrightarrow>
     cap (sem st) = 10 \<and> length (buf (sem st)) \<le> 10 \<and>
     length (buf (sem st)) = length (filter holds_ticket (tasks st))"

text \<open>The wait group counts the unfinished goroutines, the closing goroutine is started
  after the last launch and closes the results channel after the counter has reached zero,
  and nothing has panicked.\<close>

definition inv_ctl :: "Application list \<Rightarrow> 't state \<Rightarrow> bool" where
  "inv_ctl apps st \<longleftrightarrow>
     \<not> panicked st \<and> length (tasks st) \<le> length apps \<and>
     cap (resultsChan st) = length apps \<and>
     (main st = Launching \<longleftrightarrow> closer st = NotStarted) \<and>
     (main st \<noteq> Launching \<longrightarrow> length (tasks st) = length apps) \<and>
     wg st = length (filter unfinished (tasks st)) \<and>
     (closer st = Closing \<or> closer st = Closed \<longrightarrow> wg st = 0) \<and>
     (closed (resultsChan st) \<longleftrightarrow> closer st = Closed) \<and>
     (main st = Drained \<longrightarrow> closed (resultsChan st) \<and> buf (resultsChan st) = [])"

text \<open>What has been sent: \<open>order\<close> lists the goroutines that have sent, in the order of
  their sends; the first \<open>k\<close> results have been received and appended to
  \<^verbatim>\<open>allViolationRows\<close>, the others wait in the channel, each with a nil error.\<close>

definition acct ::
  "'t Row list option list \<Rightarrow> nat list \<Rightarrow> nat \<Rightarrow> 't Row list \<Rightarrow> 't AppReportResult list \<Rightarrow> bool" where
  "acct S order k agg b \<longleftrightarrow>
     distinct order \<and> set order = {i. i < length S \<and> S ! i \<noteq> None} \<and> k \<le> length order \<and>
     agg = concat (map (\<lambda>i. the (S ! i)) (take k order)) \<and>
     b = map (\<lambda>i. \<lparr>Rows = the (S ! i), Err = None\<rparr>) (drop k order)"

definition inv_acct :: "'t state \<Rightarrow> bool" where
  "inv_acct st \<longleftrightarrow>
     (\<exists>order k. acct (map sent_rows (tasks st)) order k (allViolationRows st)
        (buf (resultsChan st)))"

definition delivered_in_order :: "'t state \<Rightarrow> nat list \<Rightarrow> nat \<Rightarrow> bool" where
  "delivered_in_order st order k \<longleftrightarrow>
     distinct order \<and>
     set order = {i. i < length (tasks st) \<and> sent_rows (tasks st ! i) \<noteq> None} \<and>
     k \<le> length order \<and>
     allViolationRows st = concat (map (\<lambda>i. rows_sent (tasks st ! i)) (take k order)) \<and>
     buf (resultsChan st) =
       map (\<lambda>i. \<lparr>Rows = rows_sent (tasks st ! i), Err = None\<rparr>) (drop k order)"

subsection \<open>One application on its own\<close>

text \<open>Lines 112 to 166 for one application when the context is not cancelled in between: the
  return statement the goroutine leaves by.\<close>

definition process_application ::
  "'t Client \<Rightarrow> (string \<rightharpoonup> string) \<Rightarrow> bool \<Rightarrow> Application \<Rightarrow> 't exit_point" where
  "process_application c orgIDToName ctx app =
     (case GetLatestReportInfo c ctx (Application.ID app) of
        Inl err \<Rightarrow> ReportInfoFailed err
      | Inr None \<Rightarrow> NoReport
      | Inr (Some reportInfo) \<Rightarrow>
          if TrimSpace (ReportHTMLURL reportInfo) = [] then NoReport
          else
            (case Cut (ReportHTMLURL reportInfo) ''/report/'' of
               (before, reportID, found) \<Rightarrow>
                 if \<not> found \<or> reportID = [] then ParseFailed
                 else
                   (let orgName = (case orgIDToName (OrganizationID app) of
                                     Some n \<Rightarrow> n | None \<Rightarrow> OrganizationID app)
                    in case GetPolicyViolations c ctx (PublicID app) reportID orgName of
                         Inl err \<Rightarrow> ViolationsFailed err
                       | Inr clientRows \<Rightarrow> Delivered (convert_rows clientRows))))"

text \<open>Both remote calls of an application succeed under a live context, the report location
  parses, and the violations call returns \<open>clientRows\<close>.\<close>

definition calls_succeed ::
  "'t Client \<Rightarrow> (string \<rightharpoonup> string) \<Rightarrow> Application \<Rightarrow> 't ViolationRow list \<Rightarrow> bool" where
  "calls_succeed c orgIDToName app clientRows \<longleftrightarrow>
     (case GetLatestReportInfo c False (Application.ID app) of
        Inr (Some reportInfo) \<Rightarrow>
          TrimSpace (ReportHTMLURL reportInfo) \<noteq> [] \<and>
          (case Cut (ReportHTMLURL reportInfo) ''/report/'' of
             (before, reportID, found) \<Rightarrow>
               found \<and> reportID \<noteq> [] \<and>
               GetPolicyViolations c False (PublicID app) reportID
                 (case orgIDToName (OrganizationID app) of
                    Some n \<Rightarrow> n | None \<Rightarrow> OrganizationID app) = Inr clientRows)
      | _ \<Rightarrow> False)"

text \<open>In a run whose context is never cancelled every goroutine is where
  \<open>process_application\<close> says.\<close>

fun expected :: "'t Client \<Rightarrow> (string \<rightharpoonup> string) \<Rightarrow> Application \<Rightarrow> 't pc \<Rightarrow> bool" where
  "expected c m app AtAcquire = True"
| "expected c m app AtCtxCheck = True"
| "expected c m app AtReportInfo = True"
| "expected c m app (AtViolations r n) = (fst (fetch_report_info c m False app) = AtViolations r n)"
| "expected c m app (AtDeliver rows) = (process_application c m False app = Delivered rows)"
| "expected c m app (AtRelease e) = (process_application c m False app = e)"
| "expected c m app (AtWgDone e) = (process_application c m False app = e)"
| "expected c m app (Finished e) = (process_application c m False app = e)"

definition inv_calm :: "'t Client \<Rightarrow> (string \<rightharpoonup> string) \<Rightarrow> Application list \<Rightarrow> 't state \<Rightarrow> bool" where
  "inv_calm c m apps st \<longleftrightarrow>
     \<not> ctx_done st \<and> length (tasks st) \<le> length apps \<and>
     (\<forall>i<length (tasks st). expected c m (apps ! i) (tasks st ! i))"

subsection \<open>Traces, white space, and a bound on the length of a run\<close>

text \<open>All the states a schedule goes through, the first one included.\<close>

fun exec_trace ::
  "'t Client \<Rightarrow> (string \<rightharpoonup> string) \<Rightarrow> Application list \<Rightarrow> event list \<Rightarrow> 't state \<Rightarrow> 't state list" where
  "exec_trace c m apps [] st = [st]"
| "exec_trace c m apps (ev # evs) st =
     st # (case step c m apps ev st of None \<Rightarrow> [] | Some st' \<Rightarrow> exec_trace c m apps evs st')"

text \<open>A string made of white-space runes only (the empty string is one).\<close>

definition white_space_only :: "string \<Rightarrow> bool" where
  "white_space_only s \<longleftrightarrow> (\<exists>ws. set ws \<subseteq> set space_runes \<and> s = concat ws)"

text \<open>An upper bound on the number of steps a run still takes: every step lowers it.\<close>

fun rank :: "'t pc \<Rightarrow> nat" where
  "rank AtAcquire = 14"
| "rank AtCtxCheck = 12"
| "rank AtReportInfo = 10"
| "rank (AtViolations r n) = 8"
| "rank (AtDeliver rows) = 6"
| "rank (AtRelease e) = 4"
| "rank (AtWgDone e) = 2"
| "rank (Finished e) = 0"

fun main_rank :: "main_pc \<Rightarrow> nat" where
  "main_rank Launching = 4"
| "main_rank Ranging = 1"
| "main_rank Drained = 0"

fun closer_rank :: "closer_pc \<Rightarrow> nat" where
  "closer_rank NotStarted = 2"
| "closer_rank Waiting = 2"
| "closer_rank Closing = 1"
| "closer_rank Closed = 0"

definition steps_left :: "Application list \<Rightarrow> 't state \<Rightarrow> nat" where
  "steps_left apps st =
     15 * (length apps - length (tasks st)) + sum_list (map rank (tasks st)) +
     length (buf (resultsChan st)) + main_rank (main st) + closer_rank (closer st) +
     (if ctx_done st then 0 else 1)"

subsection \<open>Where delivered rows come from\<close>

text \<open>The rows are what the row mapper makes of the rows some \<^verbatim>\<open>GetPolicyViolations\<close> call for
  this application returned; every goroutine at the delivery \<^verbatim>\<open>select\<close> or past a send carries
  such rows.\<close>

definition fetched :: "'t Client \<Rightarrow> Application \<Rightarrow> 't Row list \<Rightarrow> bool" where
  "fetched c app rows \<longleftrightarrow>
     (\<exists>cx r n clientRows. GetPolicyViolations c cx (PublicID app) r n = Inr clientRows \<and>
        rows = map to_report_row clientRows)"

definition inv_rows :: "'t Client \<Rightarrow> Application list \<Rightarrow> 't state \<Rightarrow> bool" where
  "inv_rows c apps st \<longleftrightarrow>
     (\<forall>i<length (tasks st). \<forall>rows.
        tasks st ! i = AtDeliver rows \<or> sent_rows (tasks st ! i) = Some rows \<longrightarrow>
          fetched c (apps ! i) rows)"

section \<open>A concrete run\<close>

text \<open>Two applications, the second with a blank report location; one organization.\<close>

definition ex_row :: "string \<Rightarrow> nat \<Rightarrow> nat ViolationRow" where
  "ex_row p t =
     \<lparr>ViolationRow.Application = ''shop'', Organization = ''Retail'', Policy = p,
      Format = ''maven'', Component = ''log4j'', Threat = t, PolicyAction = ''fail'',
      ConstraintName = ''cve'', Condition = ''score >= 7'', CVE = ''CVE-1''\<rparr>"

definition ex_app1 :: Application where
  "ex_app1 = \<lparr>Application.ID = ''i1'', PublicID = ''shop'', OrganizationID = ''o1''\<rparr>"

definition ex_app2 :: Application where
  "ex_app2 = \<lparr>Application.ID = ''i2'', PublicID = ''bank'', OrganizationID = ''o2''\<rparr>"

definition ex_org :: Organization where
  "ex_org = \<lparr>Organization.ID = ''o1'', Name = ''Retail''\<rparr>"

definition ex_client :: "nat Client" where
  "ex_client =
     \<lparr>GetApplications = (\<lambda>ctx orgID. Inr [ex_app1, ex_app2]),
      GetOrganizations = (\<lambda>ctx. Inr [ex_org]),
      GetLatestReportInfo = (\<lambda>ctx appID.
         if appID = ''i1''
         then Inr (Some \<lparr>ReportHTMLURL = ''ui/links/application/shop/report/r1'', Stage = ''build''\<rparr>)
         else Inr (Some \<lparr>ReportHTMLURL = ''  '', Stage = ''build''\<rparr>)),
      GetPolicyViolations = (\<lambda>ctx publicID reportID orgName.
         Inr [ex_row ''sec-high'' 9, ex_row ''sec-low'' 2])\<rparr>"

definition ex_empty_client :: "nat Client" where
  "ex_empty_client = ex_client\<lparr>GetApplications := (\<lambda>ctx orgID. Inr [])\<rparr>"

definition ex_packages :: "nat Packages" where
  "ex_packages = \<lparr>WriteCSV = (\<lambda>path rows. None), Join = (\<lambda>dir name. dir @ ''/'' @ name)\<rparr>"

definition ex_service :: "(nat, unit) IQReportService" where
  "ex_service = \<lparr>cfg = \<lparr>OutputDir = ''reports_output''\<rparr>, cl = ex_client\<rparr>"

definition ex_schedule :: "event list" where
  "ex_schedule =
     [Launch, Launch, StartCloser,
      Task 0 Proceed, Task 1 Proceed, Task 0 Proceed, Task 1 Proceed,
      Task 0 Proceed, Task 1 Proceed, Task 0 Proceed, Task 1 Proceed,
      Task 0 Proceed, Task 1 Proceed, Receive, Task 0 Proceed, Task 0 Proceed,
      WaitReturns, CloseResults, EndRange]"

definition ex_failing_service :: "(nat, unit) IQReportService" where
  "ex_failing_service =
     ex_service\<lparr>cl := ex_client\<lparr>GetApplications := (\<lambda>ctx orgID. Inr [ex_app1]),
                    GetLatestReportInfo := (\<lambda>ctx appID. Inl (Errorf ''timeout''))\<rparr>\<rparr>"

definition ex_failing_schedule :: "event list" where
  "ex_failing_schedule =
     [Launch, StartCloser, Task 0 Proceed, Task 0 Proceed, Task 0 Proceed, Task 0 Proceed,
      Task 0 Proceed, WaitReturns, CloseResults, EndRange]"

definition ex_failing_client2 :: "nat Client" where
  "ex_failing_client2 =
     ex_client\<lparr>GetPolicyViolations := (\<lambda>ctx publicID reportID orgName.
        if publicID = ''bank'' then Inl (Errorf ''HTTP 500'')
        else Inr [ex_row ''sec-high'' 9, ex_row ''sec-low'' 2]),
      GetLatestReportInfo := (\<lambda>ctx appID.
        Inr (Some \<lparr>ReportHTMLURL = ''ui/links/application/x/report/r1'', Stage = ''build''\<rparr>))\<rparr>"

definition ex_schedule2 :: "event list" where
  "ex_schedule2 =
     [Launch, Launch, StartCloser,
      Task 0 Proceed, Task 1 Proceed, Task 0 Proceed, Task 1 Proceed,
      Task 0 Proceed, Task 1 Proceed, Task 0 Proceed, Task 1 Proceed,
      Task 1 Proceed, Task 0 Proceed, Task 1 Proceed, Receive, Task 0 Proceed,
      Task 0 Proceed, WaitReturns, CloseResults, EndRange]"

definition ex_client_ok :: "nat Client" where
  "ex_client_ok =
     ex_client\<lparr>GetLatestReportInfo := (\<lambda>ctx appID.
        Inr (Some \<lparr>ReportHTMLURL = ''ui/links/application/x/report/r1'', Stage = ''build''\<rparr>)),
      GetPolicyViolations := (\<lambda>ctx publicID reportID orgName.
        if publicID = ''shop'' then Inr [ex_row ''sec-high'' 9, ex_row ''sec-low'' 2]
        else Inr [ex_row orgName 5])\<rparr>"

definition ex_rows :: "nat \<Rightarrow> nat ViolationRow list" where
  "ex_rows i = (if i = 0 then [ex_row ''sec-high'' 9, ex_row ''sec-low'' 2] else [ex_row ''o2'' 5])"

definition ex_schedule3 :: "event list" where
  "ex_schedule3 =
     [Launch, Launch, StartCloser,
      Task 1 Proceed, Task 1 Proceed, Task 1 Proceed, Task 1 Proceed, Task 1 Proceed,
      Task 0 Proceed, Task 0 Proceed, Task 0 Proceed, Task 0 Proceed, Task 0 Proceed,
      Receive, Task 0 Proceed, Task 0 Proceed, Task 1 Proceed, Task 1 Proceed, Receive,
      WaitReturns, CloseResults, EndRange]"

definition ex_limited_service :: "(nat, nat) IQReportService" where
  "ex_limited_service = \<lparr>cfg = \<lparr>OutputDir = ''reports_output'', \<dots> = 3\<rparr>, cl = ex_client\<rparr>"

definition ex_four_apps :: "Application list" where
  "ex_four_apps = [ex_app1, ex_app2, ex_app1, ex_app2]"

definition ex_four_acquire :: "event list" where
  "ex_four_acquire =
     [Launch, Launch, Launch, Launch,
      Task 0 Proceed, Task 1 Proceed, Task 2 Proceed, Task 3 Proceed]"

text \<open>The first goroutine runs to its deferred release while the second holds a ticket.\<close>

definition ex_release_schedule :: "event list" where
  "ex_release_schedule =
     [Launch, Launch, Task 0 Proceed, Task 1 Proceed,
      Task 0 Proceed, Task 0 Proceed, Task 0 Proceed, Task 0 Proceed]"

text \<open>The first goroutine runs to the delivery \<^verbatim>\<open>select\<close>.\<close>

definition ex_deliver_schedule :: "event list" where
  "ex_deliver_schedule =
     [Launch, Launch, Task 0 Proceed, Task 0 Proceed, Task 0 Proceed, Task 0 Proceed]"

text \<open>One application whose calls succeed, and a run in which the context is cancelled
  while its goroutine is at the delivery \<^verbatim>\<open>select\<close>.\<close>

definition ex_cancel_service :: "(nat, unit) IQReportService" where
  "ex_cancel_service =
     ex_service\<lparr>cl := ex_client_ok\<lparr>GetApplications := (\<lambda>ctx orgID. Inr [ex_app1])\<rparr>\<rparr>"

definition ex_cancel_schedule :: "event list" where
  "ex_cancel_schedule =
     [Launch, StartCloser, Task 0 Proceed, Task 0 Proceed, Task 0 Proceed, Task 0 Proceed,
      Cancel, Task 0 CtxDone, Task 0 Proceed, Task 0 Proceed,
      WaitReturns, CloseResults, EndRange]"

section \<open>Proofs of the invariants\<close>

lemma fetch_report_info_quiet: "quiet (fst (fetch_report_info c m ctx app))"
  by (simp add: fetch_report_info_def quiet_def split: sum.split option.split prod.split)

lemma fetch_violations_quiet: "quiet (fst (fetch_violations c ctx app r n))"
  by (simp add: fetch_violations_def quiet_def split: sum.split option.split prod.split)

lemma goroutine_cases:
  assumes "goroutine c m app i b p st = Some st'"
  obtains
    (Acquire) "p = AtAcquire" "b = Proceed" "can_send (sem st)"
      "st' = goto i AtCtxCheck (st\<lparr>sem := chan_send () (sem st)\<rparr>)"
  | (Leave) "p = AtAcquire" "b = CtxDone" "ctx_done st"
      "st' = goto i (AtWgDone AcquireCancelled) st"
  | (Quiet) p' where "quiet p" "quiet p'" "tasks st' = (tasks st)[i := p']" "same_shared st st'"
  | (Send) rows where "p = AtDeliver rows" "b = Proceed" "\<not> closed (resultsChan st)"
      "can_send (resultsChan st)"
      "st' = goto i (AtRelease (Delivered rows))
                (st\<lparr>resultsChan := chan_send \<lparr>Rows = rows, Err = None\<rparr> (resultsChan st)\<rparr>)"
  | (SendPanic) rows where "p = AtDeliver rows" "closed (resultsChan st)" "st' = st\<lparr>panicked := True\<rparr>"
  | (Release) e where "p = AtRelease e" "can_recv (sem st)"
      "st' = goto i (AtWgDone e) (st\<lparr>sem := chan_recv (sem st)\<rparr>)"
  | (WgDone) e where "p = AtWgDone e" "wg st \<noteq> 0" "st' = goto i (Finished e) (st\<lparr>wg := wg st - 1\<rparr>)"
  | (WgPanic) e where "p = AtWgDone e" "wg st = 0" "st' = st\<lparr>panicked := True\<rparr>"
proof (cases p)
  case AtAcquire
  with assms show ?thesis
    by (cases b) (auto split: if_splits intro: Acquire Leave)
next
  case AtCtxCheck
  with assms have "b = Proceed" by (cases b) auto
  with assms AtCtxCheck show ?thesis
    by (cases "ctx_done st")
       (auto intro!: Quiet simp: quiet_def goto_def same_shared_def)
next
  case AtReportInfo
  with assms have b: "b = Proceed" by (cases b) auto
  obtain p' ls where f: "fetch_report_info c m (ctx_done st) app = (p', ls)" by force
  have "quiet p'" using fetch_report_info_quiet [of c m "ctx_done st" app] f by simp
  with assms AtReportInfo b f show ?thesis
    by (auto intro!: Quiet [where p'=p'] simp: quiet_def goto_def app_logs_def called_def same_shared_def)
next
  case (AtViolations r n)
  with assms have b: "b = Proceed" by (cases b) auto
  obtain p' ls where f: "fetch_violations c (ctx_done st) app r n = (p', ls)" by force
  have "quiet p'" using fetch_violations_quiet [of c "ctx_done st" app r n] f by simp
  with assms AtViolations b f show ?thesis
    by (auto intro!: Quiet [where p'=p'] simp: quiet_def goto_def app_logs_def called_def same_shared_def)
next
  case (AtDeliver rows)
  show ?thesis
  proof (cases b)
    case Proceed
    with assms AtDeliver show ?thesis
      by (auto split: if_splits intro: Send SendPanic)
  next
    case CtxDone
    with assms AtDeliver show ?thesis
      by (auto split: if_splits intro!: Quiet simp: quiet_def goto_def same_shared_def)
  qed
next
  case (AtRelease e)
  with assms show ?thesis
    by (cases b) (auto split: if_splits intro: Release)
next
  case (AtWgDone e)
  with assms show ?thesis
    by (cases b) (auto split: if_splits intro: WgDone WgPanic)
next
  case (Finished e)
  with assms show ?thesis by (cases b) auto
qed

lemma count_update:
  "i < length xs \<Longrightarrow>
     length (filter P (xs[i := y])) + (if P (xs ! i) then 1 else 0) =
     length (filter P xs) + (if P y then 1 else 0)"
proof (induction xs arbitrary: i)
  case Nil
  then show ?case by simp
next
  case (Cons x xs)
  then show ?case by (cases i) auto
qed

lemma map_update_same: "i < length xs \<Longrightarrow> f y = f (xs ! i) \<Longrightarrow> map f (xs[i := y]) = map f xs"
  by (simp add: map_update list_update_same_conv)

lemma task_step:
  assumes "step c m apps (Task i b) st = Some st'"
  shows "i < length (tasks st)" "\<not> panicked st"
    "goroutine c m (apps ! i) i b (tasks st ! i) st = Some st'"
  using assms by (auto simp: step_def split: if_splits)

lemma inv_sem_init: "inv_sem (init_state ctx cs apps)"
  by (simp add: inv_sem_def init_state_def make_chan_def)

lemma inv_sem_step:
  assumes "inv_sem st" "step c m apps ev st = Some st'"
  shows "inv_sem st'"
proof (cases ev)
  case (Task i b)
  note t = task_step [OF assms(2) [unfolded Task]]
  from t(3) show ?thesis
  proof (cases rule: goroutine_cases)
    case Acquire
    with assms(1) t(1) count_update [of i "tasks st" holds_ticket AtCtxCheck] show ?thesis
      by (simp add: inv_sem_def goto_def can_send_def chan_send_def)
  next
    case Leave
    with assms(1) t(1) count_update [of i "tasks st" holds_ticket "AtWgDone AcquireCancelled"]
    show ?thesis by (simp add: inv_sem_def goto_def)
  next
    case (Quiet p')
    with assms(1) t(1) count_update [of i "tasks st" holds_ticket p'] show ?thesis
      by (simp add: inv_sem_def quiet_def same_shared_def)
  next
    case (Send rows)
    with assms(1) t(1) count_update [of i "tasks st" holds_ticket "AtRelease (Delivered rows)"]
    show ?thesis by (simp add: inv_sem_def goto_def)
  next
    case (SendPanic rows)
    with assms(1) show ?thesis by (simp add: inv_sem_def)
  next
    case (Release e)
    with assms(1) t(1) count_update [of i "tasks st" holds_ticket "AtWgDone e"] show ?thesis
      by (auto simp: inv_sem_def goto_def can_recv_def chan_recv_def)
  next
    case (WgDone e)
    with assms(1) t(1) count_update [of i "tasks st" holds_ticket "Finished e"] show ?thesis
      by (simp add: inv_sem_def goto_def)
  next
    case (WgPanic e)
    with assms(1) show ?thesis by (simp add: inv_sem_def)
  qed
qed (use assms in \<open>auto simp: step_def inv_sem_def split: if_splits\<close>)

lemma inv_ctl_init: "inv_ctl apps (init_state ctx cs apps)"
  by (simp add: inv_ctl_def init_state_def make_chan_def)

lemma quiet_unfinished: "quiet p \<Longrightarrow> unfinished p"
  by (cases p) (simp_all add: quiet_def)

lemma no_unfinished:
  "length (filter unfinished xs) = 0 \<Longrightarrow> i < length xs \<Longrightarrow> \<not> unfinished (xs ! i)"
  by (auto simp: filter_empty_conv)

lemma inv_ctl_step:
  assumes "inv_ctl apps st" "step c m apps ev st = Some st'"
  shows "inv_ctl apps st'"
proof (cases ev)
  case (Task i b)
  note t = task_step [OF assms(2) [unfolded Task]]
  from t(3) show ?thesis
  proof (cases rule: goroutine_cases)
    case Acquire
    with assms(1) t(1) count_update [of i "tasks st" unfinished AtCtxCheck] show ?thesis
      by (clarsimp simp: inv_ctl_def goto_def)
  next
    case Leave
    with assms(1) t(1) count_update [of i "tasks st" unfinished "AtWgDone AcquireCancelled"]
    show ?thesis by (clarsimp simp: inv_ctl_def goto_def)
  next
    case (Quiet p')
    with assms(1) t(1) count_update [of i "tasks st" unfinished p'] show ?thesis
      by (clarsimp simp: inv_ctl_def same_shared_def quiet_unfinished)
  next
    case (Send rows)
    with assms(1) t(1) count_update [of i "tasks st" unfinished "AtRelease (Delivered rows)"]
    show ?thesis by (clarsimp simp: inv_ctl_def goto_def chan_send_def)
  next
    case (SendPanic rows)
    with assms(1) t(1) no_unfinished [of "tasks st" i] show ?thesis
      by (clarsimp simp: inv_ctl_def)
  next
    case (Release e)
    with assms(1) t(1) count_update [of i "tasks st" unfinished "AtWgDone e"] show ?thesis
      by (clarsimp simp: inv_ctl_def goto_def)
  next
    case (WgDone e)
    with assms(1) t(1) count_update [of i "tasks st" unfinished "Finished e"] show ?thesis
      by (clarsimp simp: inv_ctl_def goto_def) arith
  next
    case (WgPanic e)
    with assms(1) t(1) no_unfinished [of "tasks st" i] show ?thesis
      by (clarsimp simp: inv_ctl_def)
  qed
next
  case Cancel
  with assms show ?thesis by (clarsimp simp: step_def inv_ctl_def split: if_splits)
next
  case Launch
  with assms show ?thesis by (clarsimp simp: step_def inv_ctl_def split: if_splits)
next
  case StartCloser
  with assms show ?thesis by (clarsimp simp: step_def inv_ctl_def split: if_splits)
next
  case WaitReturns
  with assms show ?thesis by (clarsimp simp: step_def inv_ctl_def split: if_splits)
next
  case CloseResults
  with assms show ?thesis by (clarsimp simp: step_def inv_ctl_def split: if_splits)
next
  case Receive
  with assms show ?thesis by (clarsimp simp: step_def inv_ctl_def can_recv_def chan_recv_def split: if_splits)
next
  case EndRange
  with assms show ?thesis by (clarsimp simp: step_def inv_ctl_def can_recv_def split: if_splits)
qed

lemma acct_same:
  assumes "acct S order k agg b" "\<And>j. j \<in> set order \<Longrightarrow> S' ! j = S ! j"
    "set order = {i. i < length S' \<and> S' ! i \<noteq> None}"
  shows "acct S' order k agg b"
proof -
  have 1: "map (\<lambda>j. the (S' ! j)) (take k order) = map (\<lambda>j. the (S ! j)) (take k order)"
  proof (rule map_cong [OF refl])
    fix j assume "j \<in> set (take k order)"
    then have "j \<in> set order" by (rule in_set_takeD)
    then show "the (S' ! j) = the (S ! j)" by (simp only: assms(2))
  qed
  have 2: "map (\<lambda>j. \<lparr>Rows = the (S' ! j), Err = None\<rparr>) (drop k order)
         = map (\<lambda>j. \<lparr>Rows = the (S ! j), Err = None\<rparr>) (drop k order)"
  proof (rule map_cong [OF refl])
    fix j assume "j \<in> set (drop k order)"
    then have "j \<in> set order" by (rule in_set_dropD)
    then show "\<lparr>Rows = the (S' ! j), Err = None\<rparr> = \<lparr>Rows = the (S ! j), Err = None\<rparr>"
      by (simp only: assms(2))
  qed
  from assms(1) have "distinct order" "k \<le> length order"
    "agg = concat (map (\<lambda>i. the (S ! i)) (take k order))"
    "b = map (\<lambda>i. \<lparr>Rows = the (S ! i), Err = None\<rparr>) (drop k order)"
    unfolding acct_def by blast+
  with assms(3) show ?thesis unfolding acct_def 1 2 by blast
qed

lemma acct_launch:
  assumes "acct S order k agg b"
  shows "acct (S @ [None]) order k agg b"
proof (rule acct_same [OF assms])
  from assms have so: "set order = {i. i < length S \<and> S ! i \<noteq> None}"
    unfolding acct_def by blast
  show "(S @ [None]) ! j = S ! j" if "j \<in> set order" for j
    using that so by (simp add: nth_append)
  show "set order = {i. i < length (S @ [None]) \<and> (S @ [None]) ! i \<noteq> None}"
    unfolding so by (auto simp: nth_append less_Suc_eq)
qed

lemma acct_send:
  assumes "acct S order k agg b" "i < length S" "S ! i = None"
  shows "acct (S[i := Some rows]) (order @ [i]) k agg (b @ [\<lparr>Rows = rows, Err = None\<rparr>])"
proof -
  let ?S = "S[i := Some rows]"
  from assms(1) have d: "distinct order" and k: "k \<le> length order"
    and so: "set order = {i. i < length S \<and> S ! i \<noteq> None}"
    and agg: "agg = concat (map (\<lambda>i. the (S ! i)) (take k order))"
    and b: "b = map (\<lambda>i. \<lparr>Rows = the (S ! i), Err = None\<rparr>) (drop k order)"
    unfolding acct_def by blast+
  from so assms(3) have ni: "i \<notin> set order" by simp
  have same: "?S ! j = S ! j" if "j \<in> set order" for j
  proof -
    from that ni have "i \<noteq> j" by blast
    then show ?thesis by simp
  qed
  have 1: "map (\<lambda>j. the (?S ! j)) (take k order) = map (\<lambda>j. the (S ! j)) (take k order)"
  proof (rule map_cong [OF refl])
    fix j assume "j \<in> set (take k order)"
    then have "j \<in> set order" by (rule in_set_takeD)
    then show "the (?S ! j) = the (S ! j)" by (simp only: same)
  qed
  have 2: "map (\<lambda>j. \<lparr>Rows = the (?S ! j), Err = None\<rparr>) (drop k order)
         = map (\<lambda>j. \<lparr>Rows = the (S ! j), Err = None\<rparr>) (drop k order)"
  proof (rule map_cong [OF refl])
    fix j assume "j \<in> set (drop k order)"
    then have "j \<in> set order" by (rule in_set_dropD)
    then show "\<lparr>Rows = the (?S ! j), Err = None\<rparr> = \<lparr>Rows = the (S ! j), Err = None\<rparr>"
      by (simp only: same)
  qed
  have 3: "set (order @ [i]) = {j. j < length ?S \<and> ?S ! j \<noteq> None}"
    unfolding set_append so using assms(2) by (auto simp: nth_list_update)
  have 4: "distinct (order @ [i])" using d ni by simp
  have 5: "k \<le> length (order @ [i])" using k by simp
  have t: "take k (order @ [i]) = take k order" using k by simp
  have dr: "drop k (order @ [i]) = drop k order @ [i]" using k by simp
  have 6: "agg = concat (map (\<lambda>j. the (?S ! j)) (take k (order @ [i])))"
    unfolding t 1 by (rule agg)
  have "?S ! i = Some rows" using assms(2) by simp
  then have 7: "b @ [\<lparr>Rows = rows, Err = None\<rparr>]
      = map (\<lambda>j. \<lparr>Rows = the (?S ! j), Err = None\<rparr>) (drop k (order @ [i]))"
    unfolding dr map_append 2 b by simp
  from 3 4 5 6 7 show ?thesis unfolding acct_def by blast
qed

lemma acct_receive:
  assumes "acct S order k agg b" "b \<noteq> []"
  shows "acct S order (Suc k) (agg @ Rows (hd b)) (tl b)"
proof -
  from assms have k: "k < length order" by (auto simp: acct_def)
  then have "take (Suc k) order = take k order @ [order ! k]"
    by (simp add: take_Suc_conv_app_nth)
  moreover from k have "drop k order = order ! k # drop (Suc k) order"
    by (simp add: Cons_nth_drop_Suc)
  ultimately show ?thesis using assms(1) k by (simp add: acct_def)
qed

lemma inv_acct_init: "inv_acct (init_state ctx cs apps)"
  by (simp add: inv_acct_def init_state_def make_chan_def acct_def)

lemma sent_rows_exit: "sent_rows (AtWgDone e) = sent_rows (AtRelease e)"
  "sent_rows (Finished e) = sent_rows (AtRelease e)"
  by (cases e; simp)+

lemma inv_acct_cong:
  "inv_acct st \<Longrightarrow> map sent_rows (tasks st') = map sent_rows (tasks st) \<Longrightarrow>
   allViolationRows st' = allViolationRows st \<Longrightarrow>
   buf (resultsChan st') = buf (resultsChan st) \<Longrightarrow> inv_acct st'"
  by (simp add: inv_acct_def)

lemma inv_acct_step:
  assumes "inv_acct st" "step c m apps ev st = Some st'"
  shows "inv_acct st'"
proof (cases ev)
  case (Task i b)
  note t = task_step [OF assms(2) [unfolded Task]]
  from t(3) show ?thesis
  proof (cases rule: goroutine_cases)
    case Acquire
    with t(1) map_update_same [of i "tasks st" sent_rows AtCtxCheck] show ?thesis
      by (intro inv_acct_cong [OF assms(1)]) (simp_all add: goto_def)
  next
    case Leave
    with t(1) map_update_same [of i "tasks st" sent_rows "AtWgDone AcquireCancelled"]
    show ?thesis by (intro inv_acct_cong [OF assms(1)]) (simp_all add: goto_def)
  next
    case (Quiet p')
    with t(1) map_update_same [of i "tasks st" sent_rows p'] show ?thesis
      by (intro inv_acct_cong [OF assms(1)]) (simp_all add: same_shared_def quiet_def)
  next
    case (Send rows)
    from assms(1) obtain order k where
      a: "acct (map sent_rows (tasks st)) order k (allViolationRows st) (buf (resultsChan st))"
      unfolding inv_acct_def by blast
    from t(1) Send have "acct (map sent_rows (tasks st')) (order @ [i]) k (allViolationRows st')
        (buf (resultsChan st'))"
      using acct_send [OF a, of i rows] by (simp add: goto_def chan_send_def map_update)
    then show ?thesis unfolding inv_acct_def by blast
  next
    case (SendPanic rows)
    then show ?thesis by (intro inv_acct_cong [OF assms(1)]) simp_all
  next
    case (Release e)
    with t(1) map_update_same [of i "tasks st" sent_rows "AtWgDone e"] show ?thesis
      by (intro inv_acct_cong [OF assms(1)]) (simp_all add: goto_def sent_rows_exit)
  next
    case (WgDone e)
    with t(1) map_update_same [of i "tasks st" sent_rows "Finished e"] show ?thesis
      by (intro inv_acct_cong [OF assms(1)])
         (simp_all add: goto_def sent_rows_exit del: sent_rows.simps)
  next
    case (WgPanic e)
    then show ?thesis by (intro inv_acct_cong [OF assms(1)]) simp_all
  qed
next
  case Cancel
  with assms(2) have "st' = st\<lparr>ctx_done := True\<rparr>"
    by (simp add: step_def split: if_splits)
  then show ?thesis by (intro inv_acct_cong [OF assms(1)]) simp_all
next
  case Launch
  with assms(2) have st': "st' = st\<lparr>wg := wg st + 1, tasks := tasks st @ [AtAcquire]\<rparr>"
    by (simp add: step_def split: if_splits)
  from assms(1) obtain order k where
    a: "acct (map sent_rows (tasks st)) order k (allViolationRows st) (buf (resultsChan st))"
    unfolding inv_acct_def by blast
  from acct_launch [OF a] st' show ?thesis unfolding inv_acct_def by auto
next
  case StartCloser
  with assms(2) have "st' = st\<lparr>main := Ranging, closer := Waiting\<rparr>"
    by (simp add: step_def split: if_splits)
  then show ?thesis by (intro inv_acct_cong [OF assms(1)]) simp_all
next
  case WaitReturns
  with assms(2) have "st' = st\<lparr>closer := Closing\<rparr>"
    by (simp add: step_def split: if_splits)
  then show ?thesis by (intro inv_acct_cong [OF assms(1)]) simp_all
next
  case CloseResults
  with assms(2) have "st' = st\<lparr>panicked := True\<rparr> \<or>
      st' = st\<lparr>resultsChan := (resultsChan st)\<lparr>closed := True\<rparr>, closer := Closed\<rparr>"
    by (simp add: step_def split: if_splits)
  then show ?thesis by (intro inv_acct_cong [OF assms(1)]) auto
next
  case Receive
  with assms(2) have st': "st' = st\<lparr>allViolationRows :=
        allViolationRows st @ Rows (hd (buf (resultsChan st))),
        resultsChan := chan_recv (resultsChan st)\<rparr>" and ne: "buf (resultsChan st) \<noteq> []"
    by (simp_all add: step_def can_recv_def split: if_splits)
  from assms(1) obtain order k where
    a: "acct (map sent_rows (tasks st)) order k (allViolationRows st) (buf (resultsChan st))"
    unfolding inv_acct_def by blast
  from acct_receive [OF a ne] st' show ?thesis
    unfolding inv_acct_def by (auto simp: chan_recv_def)
next
  case EndRange
  with assms(2) have "st' = st\<lparr>main := Drained\<rparr>"
    by (simp add: step_def split: if_splits)
  then show ?thesis by (intro inv_acct_cong [OF assms(1)]) simp_all
qed

lemma expected_fetch_report_info:
  "expected c m app (fst (fetch_report_info c m False app))"
  by (simp add: fetch_report_info_def process_application_def
      split: sum.split option.split prod.split)

lemma expected_fetch_violations:
  "fst (fetch_report_info c m False app) = AtViolations r n \<Longrightarrow>
   expected c m app (fst (fetch_violations c False app r n))"
  by (auto simp: fetch_report_info_def fetch_violations_def process_application_def
      split: sum.splits option.splits prod.splits if_splits)

lemma inv_calmI:
  assumes "\<not> ctx_done st'" "length (tasks st) \<le> length apps" "i < length (tasks st)"
    "tasks st' = (tasks st)[i := p]" "expected c m (apps ! i) p"
    "\<forall>i<length (tasks st). expected c m (apps ! i) (tasks st ! i)"
  shows "inv_calm c m apps st'"
  using assms by (auto simp: inv_calm_def nth_list_update)

lemma inv_calm_task:
  assumes "inv_calm c m apps st" "goroutine c m (apps ! i) i b p st = Some st'"
    "i < length (tasks st)" "p = tasks st ! i"
  shows "inv_calm c m apps st'"
proof -
  from assms(1) have nc: "\<not> ctx_done st" and le: "length (tasks st) \<le> length apps"
    and ex: "\<forall>i<length (tasks st). expected c m (apps ! i) (tasks st ! i)"
    by (auto simp: inv_calm_def)
  from ex assms(3,4) have exi: "expected c m (apps ! i) p" by simp
  show ?thesis
  proof (cases p)
    case AtAcquire
    with assms(2) nc have b: "b = Proceed" by (cases b) auto
    with assms(2) AtAcquire have "tasks st' = (tasks st)[i := AtCtxCheck] \<and> \<not> ctx_done st'"
      using nc by (auto simp: goto_def split: if_splits)
    then show ?thesis using le assms(3) ex by (intro inv_calmI [where i=i and p=AtCtxCheck]) auto
  next
    case AtCtxCheck
    with assms(2) have b: "b = Proceed" by (cases b) auto
    with assms(2) AtCtxCheck have "tasks st' = (tasks st)[i := AtReportInfo] \<and> \<not> ctx_done st'"
      using nc by (auto simp: goto_def split: if_splits)
    then show ?thesis using le assms(3) ex by (intro inv_calmI [where i=i and p=AtReportInfo]) auto
  next
    case AtReportInfo
    with assms(2) have b: "b = Proceed" by (cases b) auto
    obtain p' ls where f: "fetch_report_info c m False (apps ! i) = (p', ls)" by force
    with assms(2) AtReportInfo b nc have "tasks st' = (tasks st)[i := p'] \<and> \<not> ctx_done st'"
      by (auto simp: goto_def app_logs_def called_def)
    moreover have "expected c m (apps ! i) p'"
      using expected_fetch_report_info [of c m "apps ! i"] f by simp
    ultimately show ?thesis using le assms(3) ex by (intro inv_calmI [where i=i and p=p']) auto
  next
    case (AtViolations r n)
    with assms(2) have b: "b = Proceed" by (cases b) auto
    obtain p' ls where f: "fetch_violations c False (apps ! i) r n = (p', ls)" by force
    with assms(2) AtViolations b nc have "tasks st' = (tasks st)[i := p'] \<and> \<not> ctx_done st'"
      by (auto simp: goto_def app_logs_def called_def)
    moreover have "expected c m (apps ! i) p'"
      using expected_fetch_violations [of c m "apps ! i" r n] f exi AtViolations by simp
    ultimately show ?thesis using le assms(3) ex by (intro inv_calmI [where i=i and p=p']) auto
  next
    case (AtDeliver rows)
    with assms(2) nc have b: "b = Proceed" by (cases b) auto
    from assms(2) AtDeliver b nc consider
      "st' = st\<lparr>panicked := True\<rparr>"
      | "tasks st' = (tasks st)[i := AtRelease (Delivered rows)] \<and> \<not> ctx_done st'"
      by (auto simp: goto_def split: if_splits)
    then show ?thesis
    proof cases
      case 1
      with assms(1) show ?thesis by (simp add: inv_calm_def)
    next
      case 2
      then show ?thesis using le assms(3) ex exi AtDeliver
        by (intro inv_calmI [where i=i and p="AtRelease (Delivered rows)"]) auto
    qed
  next
    case (AtRelease e)
    with assms(2) have b: "b = Proceed" by (cases b) auto
    with assms(2) AtRelease have "tasks st' = (tasks st)[i := AtWgDone e] \<and> \<not> ctx_done st'"
      using nc by (auto simp: goto_def split: if_splits)
    then show ?thesis using le assms(3) ex exi AtRelease
      by (intro inv_calmI [where i=i and p="AtWgDone e"]) auto
  next
    case (AtWgDone e)
    with assms(2) have b: "b = Proceed" by (cases b) auto
    from assms(2) AtWgDone b nc consider
      "st' = st\<lparr>panicked := True\<rparr>"
      | "tasks st' = (tasks st)[i := Finished e] \<and> \<not> ctx_done st'"
      by (auto simp: goto_def split: if_splits)
    then show ?thesis
    proof cases
      case 1
      with assms(1) show ?thesis by (simp add: inv_calm_def)
    next
      case 2
      then show ?thesis using le assms(3) ex exi AtWgDone
        by (intro inv_calmI [where i=i and p="Finished e"]) auto
    qed
  next
    case (Finished e)
    with assms(2) show ?thesis by (cases b) auto
  qed
qed

lemma inv_calm_step:
  assumes "inv_calm c m apps st" "step c m apps ev st = Some st'" "ev \<noteq> Cancel"
  shows "inv_calm c m apps st'"
proof (cases ev)
  case (Task i b)
  note t = task_step [OF assms(2) [unfolded Task]]
  from inv_calm_task [OF assms(1) t(3) t(1) refl] show ?thesis .
next
  case Launch
  with assms(1,2) show ?thesis
    by (auto simp: step_def inv_calm_def nth_append less_Suc_eq split: if_splits)
qed (use assms in \<open>auto simp: step_def inv_calm_def chan_recv_def split: if_splits\<close>)

lemma exec_invariant:
  assumes "exec c m apps sched st = Some st'" "P st"
    "\<And>ev st st'. P st \<Longrightarrow> step c m apps ev st = Some st' \<Longrightarrow> P st'"
  shows "P st'"
  using assms(1,2)
proof (induction sched arbitrary: st)
  case Nil
  then show ?case by simp
next
  case (Cons ev evs)
  then obtain st1 where 1: "step c m apps ev st = Some st1" and 2: "exec c m apps evs st1 = Some st'"
    by (auto split: option.splits)
  from Cons.prems(2) 1 have "P st1" by (rule assms(3))
  with 2 show ?case by (rule Cons.IH)
qed

lemma exec_calm:
  assumes "exec c m apps sched st = Some st'" "inv_calm c m apps st" "Cancel \<notin> set sched"
  shows "inv_calm c m apps st'"
  using assms
proof (induction sched arbitrary: st)
  case Nil
  then show ?case by simp
next
  case (Cons ev evs)
  then obtain st1 where 1: "step c m apps ev st = Some st1" and 2: "exec c m apps evs st1 = Some st'"
    by (auto split: option.splits)
  from Cons.prems(3) have "ev \<noteq> Cancel" "Cancel \<notin> set evs" by auto
  with Cons.IH [OF 2] inv_calm_step [OF Cons.prems(2) 1] show ?case by blast
qed

lemma fan_out_inv:
  assumes "fan_out s ctx orgID apps orgs sched = Some st"
  shows "inv_sem st" "inv_ctl apps st" "inv_acct st"
proof -
  let ?i = "init_state ctx [CallGetApplications orgID, CallGetOrganizations] apps :: 'a state"
  from assms have e: "exec (cl s) (build_orgIDToName orgs Map.empty) apps sched ?i = Some st"
    by (simp add: fan_out_def)
  show "inv_sem st"
    by (rule exec_invariant [where P = inv_sem, OF e inv_sem_init]) (rule inv_sem_step)
  show "inv_ctl apps st"
    by (rule exec_invariant [where P = "inv_ctl apps", OF e inv_ctl_init]) (rule inv_ctl_step)
  show "inv_acct st"
    by (rule exec_invariant [where P = inv_acct, OF e inv_acct_init]) (rule inv_acct_step)
qed

lemma fan_out_step:
  assumes "fan_out s ctx orgID apps orgs sched = Some st"
    "step (cl s) (build_orgIDToName orgs Map.empty) apps ev st = Some st'"
  shows "fan_out s ctx orgID apps orgs (sched @ [ev]) = Some st'"
proof -
  have "exec c m apps (xs @ [ev]) st0 = Some st'"
    if "exec c m apps xs st0 = Some st" "step c m apps ev st = Some st'"
    for c :: "'a Client" and m apps xs st0 st st'
    using that by (induction xs arbitrary: st0) (auto split: option.splits)
  with assms show ?thesis by (simp add: fan_out_def)
qed

lemma fan_out_calm:
  assumes "fan_out s ctx orgID apps orgs sched = Some st" "\<not> ctx" "Cancel \<notin> set sched"
  shows "inv_calm (cl s) (build_orgIDToName orgs Map.empty) apps st"
proof -
  have "inv_calm (cl s) (build_orgIDToName orgs Map.empty) apps
      (init_state ctx [CallGetApplications orgID, CallGetOrganizations] apps :: 'a state)"
    using assms(2) by (simp add: inv_calm_def init_state_def)
  with assms(1,3) show ?thesis unfolding fan_out_def by (blast intro: exec_calm)
qed

lemma all_launched:
  assumes "inv_ctl apps st" "closer st = Closed \<or> closer st = Closing"
  shows "length (tasks st) = length apps"
  using assms by (auto simp: inv_ctl_def)

lemma all_finished:
  assumes "inv_ctl apps st" "closer st = Closed \<or> closer st = Closing" "i < length apps"
  shows "\<exists>e. tasks st ! i = Finished e"
proof -
  from assms(1,2) have z: "length (filter unfinished (tasks st)) = 0"
    by (auto simp: inv_ctl_def)
  from no_unfinished [OF z, of i] all_launched [OF assms(1,2)] assms(3)
  have "\<not> unfinished (tasks st ! i)" by simp
  then show "\<exists>e. tasks st ! i = Finished e" by (cases "tasks st ! i") auto
qed

lemma sent_bound:
  assumes "inv_acct st"
  shows "length (buf (resultsChan st)) \<le> length (filter (\<lambda>p. sent_rows p \<noteq> None) (tasks st))"
proof -
  from assms obtain order k where
    a: "acct (map sent_rows (tasks st)) order k (allViolationRows st) (buf (resultsChan st))"
    unfolding inv_acct_def by blast
  then have d: "distinct order"
    and so: "set order = {i. i < length (tasks st) \<and> sent_rows (tasks st ! i) \<noteq> None}"
    and b: "length (buf (resultsChan st)) \<le> length order"
    by (auto simp: acct_def)
  from d have "length order = card (set order)" by (simp add: distinct_card)
  also have "\<dots> = length (filter (\<lambda>p. sent_rows p \<noteq> None) (tasks st))"
    unfolding so by (simp add: length_filter_conv_card)
  finally show ?thesis using b by simp
qed

lemma acct_final:
  assumes "inv_acct st"
  shows "\<exists>order k. delivered_in_order st order k"
proof -
  from assms obtain order k where
    a: "acct (map sent_rows (tasks st)) order k (allViolationRows st) (buf (resultsChan st))"
    unfolding inv_acct_def by blast
  from a have d: "distinct order" unfolding acct_def by (elim conjE)
  from a have k: "k \<le> length order" unfolding acct_def by (elim conjE)
  from a have so: "set order = {i. i < length (tasks st) \<and> sent_rows (tasks st ! i) \<noteq> None}"
    unfolding acct_def by (elim conjE) auto
  from a have agg: "allViolationRows st =
        concat (map (\<lambda>i. the (map sent_rows (tasks st) ! i)) (take k order))"
    unfolding acct_def by (elim conjE)
  from a have b: "buf (resultsChan st) =
        map (\<lambda>i. \<lparr>Rows = the (map sent_rows (tasks st) ! i), Err = None\<rparr>) (drop k order)"
    unfolding acct_def by (elim conjE)
  have r: "the (map sent_rows (tasks st) ! i) = rows_sent (tasks st ! i)" if "i \<in> set order" for i
  proof -
    from that so have "i < length (tasks st)" "sent_rows (tasks st ! i) \<noteq> None" by simp_all
    then show ?thesis by (auto simp: rows_sent_def)
  qed
  have 1: "map (\<lambda>i. the (map sent_rows (tasks st) ! i)) (take k order)
         = map (\<lambda>i. rows_sent (tasks st ! i)) (take k order)"
  proof (rule map_cong [OF refl])
    fix i assume "i \<in> set (take k order)"
    then have "i \<in> set order" by (rule in_set_takeD)
    then show "the (map sent_rows (tasks st) ! i) = rows_sent (tasks st ! i)" by (rule r)
  qed
  have 2: "map (\<lambda>i. \<lparr>Rows = the (map sent_rows (tasks st) ! i), Err = None\<rparr>) (drop k order)
         = map (\<lambda>i. \<lparr>Rows = rows_sent (tasks st ! i), Err = None\<rparr>) (drop k order)"
  proof (rule map_cong [OF refl])
    fix i assume "i \<in> set (drop k order)"
    then have "i \<in> set order" by (rule in_set_dropD)
    then show "\<lparr>Rows = the (map sent_rows (tasks st) ! i), Err = None\<rparr>
        = \<lparr>Rows = rows_sent (tasks st ! i), Err = None\<rparr>" by (simp only: r)
  qed
  have "delivered_in_order st order k"
    unfolding delivered_in_order_def
    using d so k agg [unfolded 1] b [unfolded 2] by (intro conjI)
  then show ?thesis by (intro exI)
qed

lemma drained_rows:
  assumes "inv_acct st" "inv_ctl apps st" "main st = Drained"
  shows "\<exists>order. distinct order \<and>
      set order = {i. i < length apps \<and> sent_rows (tasks st ! i) \<noteq> None} \<and>
      allViolationRows st = concat (map (\<lambda>i. rows_sent (tasks st ! i)) order)"
proof -
  from acct_final [OF assms(1)] obtain order k where a: "delivered_in_order st order k"
    by (elim exE)
  from a have d: "distinct order" unfolding delivered_in_order_def by (elim conjE)
  from a have k: "k \<le> length order" unfolding delivered_in_order_def by (elim conjE)
  from a have so: "set order = {i. i < length (tasks st) \<and> sent_rows (tasks st ! i) \<noteq> None}"
    unfolding delivered_in_order_def by (elim conjE)
  from a have agg: "allViolationRows st =
      concat (map (\<lambda>i. rows_sent (tasks st ! i)) (take k order))"
    unfolding delivered_in_order_def by (elim conjE)
  from a have b: "buf (resultsChan st) =
        map (\<lambda>i. \<lparr>Rows = rows_sent (tasks st ! i), Err = None\<rparr>) (drop k order)"
    unfolding delivered_in_order_def by (elim conjE)
  from assms(2,3) have e: "buf (resultsChan st) = []" and l: "length (tasks st) = length apps"
    by (simp_all add: inv_ctl_def)
  from e b k have "k = length order" by simp
  with agg have 3: "allViolationRows st = concat (map (\<lambda>i. rows_sent (tasks st ! i)) order)"
    by simp
  from so l have 2: "set order = {i. i < length apps \<and> sent_rows (tasks st ! i) \<noteq> None}"
    by simp
  from d 2 3 show ?thesis by (intro exI conjI)
qed

lemma rows_sent_Finished:
  "rows_sent (Finished e) = (case e of Delivered rows \<Rightarrow> rows | _ \<Rightarrow> [])"
  by (cases e) (simp_all add: rows_sent_def)

lemma drained_mset:
  assumes "inv_acct st" "inv_ctl apps st" "main st = Drained"
  shows "mset (allViolationRows st) = (\<Sum>i<length apps. mset (rows_sent (tasks st ! i)))"
proof -
  from drained_rows [OF assms] obtain order where d: "distinct order"
    and so: "set order = {i. i < length apps \<and> sent_rows (tasks st ! i) \<noteq> None}"
    and agg: "allViolationRows st = concat (map (\<lambda>i. rows_sent (tasks st ! i)) order)"
    by (elim exE conjE)
  let ?f = "\<lambda>i. mset (rows_sent (tasks st ! i))"
  have "mset (allViolationRows st) = sum_list (map ?f order)"
    unfolding agg by (simp add: mset_concat comp_def)
  also have "\<dots> = sum ?f (set order)"
    using d by (rule sum_list_distinct_conv_sum_set)
  also have "\<dots> = sum ?f {..<length apps}"
  proof (rule sum.mono_neutral_left)
    show "finite {..<length apps}" by simp
    show "set order \<subseteq> {..<length apps}" unfolding so by auto
    show "\<forall>i\<in>{..<length apps} - set order. ?f i = 0"
      unfolding so by (auto simp: rows_sent_def)
  qed
  finally show ?thesis .
qed

lemma drained_calm:
  assumes "inv_ctl apps st" "inv_calm c m apps st" "main st = Drained" "i < length apps"
  shows "tasks st ! i = Finished (process_application c m False (apps ! i))"
proof -
  from assms(1,3) have c: "closer st = Closed \<or> closer st = Closing"
    by (auto simp: inv_ctl_def)
  from all_finished [OF assms(1) c assms(4)] obtain e where e: "tasks st ! i = Finished e"
    by (elim exE)
  from all_launched [OF assms(1) c] assms(2,4) have "expected c m (apps ! i) (tasks st ! i)"
    by (simp add: inv_calm_def)
  with e show ?thesis by simp
qed

lemma convert_rows_map: "convert_rows rs = map to_report_row rs"
  by (induction rs) simp_all

lemma calls_succeed_process:
  "calls_succeed c m app clientRows \<Longrightarrow>
     process_application c m False app = Delivered (convert_rows clientRows)"
  by (auto simp: calls_succeed_def process_application_def
      split: sum.splits option.splits prod.splits)

lemma build_orgIDToName_map_of:
  "build_orgIDToName orgs m =
     m ++ map_of (rev (map (\<lambda>org. (Organization.ID org, Organization.Name org)) orgs))"
proof (induction orgs arbitrary: m)
  case Nil
  then show ?case by simp
next
  case (Cons org orgs)
  show ?case
    by (rule ext) (simp add: Cons.IH map_add_def split: option.splits)
qed

lemma Index_Some:
  "Index s sep = Some i \<Longrightarrow>
     i \<le> length s \<and> prefix sep (drop i s) \<and> (\<forall>j<i. \<not> prefix sep (drop j s))"
proof (induction s arbitrary: i)
  case Nil
  then show ?case by (simp split: if_splits)
next
  case (Cons c cs)
  show ?case
  proof (cases "prefix sep (c # cs)")
    case True
    with Cons.prems show ?thesis by simp
  next
    case False
    with Cons.prems obtain k where k: "Index cs sep = Some k" "i = Suc k" by auto
    from Cons.IH [OF k(1)] False k(2) show ?thesis
      by (auto simp: less_Suc_eq_0_disj)
  qed
qed

lemma Index_None: "Index s sep = None \<Longrightarrow> \<forall>j\<le>length s. \<not> prefix sep (drop j s)"
proof (induction s)
  case Nil
  then show ?case by (simp split: if_splits)
next
  case (Cons c cs)
  then have "\<not> prefix sep (c # cs)" "Index cs sep = None" by (auto split: if_splits)
  with Cons.IH have "\<not> prefix sep (drop j (c # cs))" if "j \<le> length (c # cs)" for j
    using that by (cases j) auto
  then show ?case by blast
qed

lemma Cut_found:
  assumes "Cut s sep = (before, after, True)"
  shows "s = before @ sep @ after \<and> (\<forall>j<length before. \<not> prefix sep (drop j s))"
proof -
  from assms obtain i where i: "Index s sep = Some i" "before = take i s"
    "after = drop (i + length sep) s"
    by (auto simp: Cut_def split: option.splits)
  from Index_Some [OF i(1)] have le: "i \<le> length s" and p: "prefix sep (drop i s)"
    and f: "\<forall>j<i. \<not> prefix sep (drop j s)" by simp_all
  from p obtain t where t: "drop i s = sep @ t" by (auto simp: prefix_def)
  then have "drop (i + length sep) s = t"
    by (metis add.commute append_eq_conv_conj drop_drop)
  with t i have "s = before @ sep @ after"
    by (metis append_take_drop_id)
  moreover from le i(2) have "length before = i" by simp
  ultimately show ?thesis using f by simp
qed

lemma fan_out_cl:
  "cl s' = cl s \<Longrightarrow> fan_out s' ctx orgID apps orgs sched = fan_out s ctx orgID apps orgs sched"
  by (simp add: fan_out_def)

lemma space_runes_nonempty: "w \<in> set space_runes \<Longrightarrow> w \<noteq> []"
  by (auto simp: space_runes_def)

lemma space_runes_prefix_free:
  "w \<in> set space_runes \<Longrightarrow> w' \<in> set space_runes \<Longrightarrow> prefix w' (w @ t) \<Longrightarrow> w' = w"
  unfolding space_runes_def by (elim disjE | simp)+

lemma leading_space_rune:
  assumes "w \<in> set space_runes"
  shows "leading_space (w @ t) = length w"
proof (cases "find (\<lambda>w'. prefix w' (w @ t)) space_runes")
  case None
  with assms show ?thesis by (auto simp: find_None_iff)
next
  case (Some w')
  then have "w' \<in> set space_runes" "prefix w' (w @ t)"
    by (auto simp: find_Some_iff)
  with assms have "w' = w" by (blast dest: space_runes_prefix_free)
  with Some show ?thesis by (simp add: leading_space_def)
qed

lemma leading_space_cases:
  obtains "leading_space s = 0"
  | w t where "w \<in> set space_runes" "s = w @ t" "leading_space s = length w" "w \<noteq> []"
proof (cases "find (\<lambda>w'. prefix w' s) space_runes")
  case None
  then show ?thesis by (auto simp: leading_space_def intro: that(1))
next
  case (Some w)
  then have w: "w \<in> set space_runes" "prefix w s" by (auto simp: find_Some_iff)
  then obtain t where "s = w @ t" by (auto simp: prefix_def)
  with w Some space_runes_nonempty [OF w(1)] show ?thesis
    by (auto simp: leading_space_def intro: that(2))
qed

lemma trailing_space_cases:
  obtains "trailing_space s = 0"
  | w t where "w \<in> set space_runes" "s = t @ w" "trailing_space s = length w" "w \<noteq> []"
proof (cases "find (\<lambda>w'. suffix w' s) space_runes")
  case None
  then show ?thesis by (auto simp: trailing_space_def intro: that(1))
next
  case (Some w)
  then have w: "w \<in> set space_runes" "suffix w s" by (auto simp: find_Some_iff)
  then obtain t where "s = t @ w" by (auto simp: suffix_def)
  with w Some space_runes_nonempty [OF w(1)] show ?thesis
    by (auto simp: trailing_space_def intro: that(2))
qed

lemma TrimLeftSpace_white: "set ws \<subseteq> set space_runes \<Longrightarrow> TrimLeftSpace (concat ws) = []"
proof (induction ws)
  case Nil
  show ?case by (simp add: TrimLeftSpace.simps leading_space_def space_runes_def)
next
  case (Cons w ws)
  then have w: "w \<in> set space_runes" by simp
  from leading_space_rune [OF w, of "concat ws"] space_runes_nonempty [OF w] Cons
  show ?case by (subst TrimLeftSpace.simps) simp
qed

lemma TrimLeftSpace_split:
  "\<exists>ws. set ws \<subseteq> set space_runes \<and> s = concat ws @ TrimLeftSpace s"
proof (induction s rule: TrimLeftSpace.induct)
  case (1 s)
  show ?case
  proof (cases s rule: leading_space_cases)
    case 1
    then have "TrimLeftSpace s = s" by (subst TrimLeftSpace.simps) simp
    then show ?thesis by (intro exI [of _ "[]"]) simp
  next
    case (2 w t)
    then have ne: "leading_space s \<noteq> 0" by simp
    from 2 have d: "drop (leading_space s) s = t" by simp
    from "1.IH" [OF ne] d obtain ws where
      ws: "set ws \<subseteq> set space_runes" "t = concat ws @ TrimLeftSpace t" by auto
    from ne d have "TrimLeftSpace s = TrimLeftSpace t" by (subst TrimLeftSpace.simps) simp
    with ws 2 show ?thesis by (intro exI [of _ "w # ws"]) simp
  qed
qed

lemma TrimLeftSpace_leading: "leading_space (TrimLeftSpace s) = 0"
proof (induction s rule: TrimLeftSpace.induct)
  case (1 s)
  show ?case
  proof (cases "leading_space s = 0")
    case True
    then have "TrimLeftSpace s = s" by (subst TrimLeftSpace.simps) simp
    with True show ?thesis by simp
  next
    case False
    then have "TrimLeftSpace s = TrimLeftSpace (drop (leading_space s) s)"
      by (subst TrimLeftSpace.simps) simp
    with "1.IH" [OF False] show ?thesis by simp
  qed
qed

lemma TrimRightSpace_split:
  "\<exists>ws. set ws \<subseteq> set space_runes \<and> s = TrimRightSpace s @ concat ws"
proof (induction s rule: TrimRightSpace.induct)
  case (1 s)
  show ?case
  proof (cases s rule: trailing_space_cases)
    case 1
    then have "TrimRightSpace s = s" by (subst TrimRightSpace.simps) simp
    then show ?thesis by (intro exI [of _ "[]"]) simp
  next
    case (2 w t)
    then have ne: "trailing_space s \<noteq> 0" by simp
    from 2 have d: "take (length s - trailing_space s) s = t" by simp
    from "1.IH" [OF ne] d obtain ws where
      ws: "set ws \<subseteq> set space_runes" "t = TrimRightSpace t @ concat ws" by auto
    from ne d have "TrimRightSpace s = TrimRightSpace t" by (subst TrimRightSpace.simps) simp
    with ws 2 show ?thesis by (intro exI [of _ "ws @ [w]"]) simp
  qed
qed

lemma white_leading:
  assumes "set ws \<subseteq> set space_runes" "concat ws \<noteq> []"
  shows "leading_space (concat ws) \<noteq> 0"
proof (cases ws)
  case Nil
  with assms show ?thesis by simp
next
  case (Cons w ws')
  with assms have w: "w \<in> set space_runes" by simp
  from leading_space_rune [OF w, of "concat ws'"] space_runes_nonempty [OF w] Cons
  show ?thesis by simp
qed

lemma TrimSpace_empty_iff: "TrimSpace s = [] \<longleftrightarrow> white_space_only s"
proof
  assume e: "TrimSpace s = []"
  from TrimRightSpace_split [of "TrimLeftSpace s"] e obtain ws where
    ws: "set ws \<subseteq> set space_runes" "TrimLeftSpace s = concat ws"
    by (auto simp: TrimSpace_def)
  have "concat ws = []"
  proof (rule ccontr)
    assume "concat ws \<noteq> []"
    from white_leading [OF ws(1) this] TrimLeftSpace_leading [of s] ws(2) show False by simp
  qed
  with ws TrimLeftSpace_split [of s] show "white_space_only s"
    by (auto simp: white_space_only_def)
next
  assume "white_space_only s"
  then obtain ws where "set ws \<subseteq> set space_runes" "s = concat ws"
    by (auto simp: white_space_only_def)
  then have "TrimLeftSpace s = []" by (simp add: TrimLeftSpace_white)
  then show "TrimSpace s = []"
    by (simp add: TrimSpace_def TrimRightSpace.simps trailing_space_def space_runes_def)
qed

lemma sum_list_update_add:
  "i < length xs \<Longrightarrow>
     sum_list (map f (xs[i := y])) + f (xs ! i) = sum_list (map f xs) + (f y :: nat)"
proof (induction xs arbitrary: i)
  case Nil
  then show ?case by simp
next
  case (Cons x xs)
  then show ?case by (cases i) auto
qed

lemma rank_fetch_report_info: "rank (fst (fetch_report_info c m ctx app)) < 10"
  by (simp add: fetch_report_info_def split: sum.split option.split prod.split)

lemma rank_fetch_violations: "rank (fst (fetch_violations c ctx app r n)) < 8"
  by (simp add: fetch_violations_def split: sum.split option.split prod.split)

lemma goroutine_rank:
  assumes "goroutine c m app i b p st = Some st'" "\<not> panicked st'" "\<not> panicked st"
  shows "\<exists>p'. tasks st' = (tasks st)[i := p'] \<and>
           rank p' + length (buf (resultsChan st')) < rank p + length (buf (resultsChan st)) \<and>
           main st' = main st \<and> closer st' = closer st \<and> ctx_done st' = ctx_done st"
proof (cases p)
  case AtAcquire
  with assms show ?thesis by (cases b) (auto simp: goto_def split: if_splits)
next
  case AtCtxCheck
  with assms show ?thesis by (cases b) (auto simp: goto_def split: if_splits)
next
  case AtReportInfo
  with assms have b: "b = Proceed" by (cases b) auto
  obtain p' ls where f: "fetch_report_info c m (ctx_done st) app = (p', ls)" by force
  with rank_fetch_report_info [of c m "ctx_done st" app] have "rank p' < 10" by simp
  with assms AtReportInfo b f show ?thesis
    by (auto simp: goto_def app_logs_def called_def)
next
  case (AtViolations r n)
  with assms have b: "b = Proceed" by (cases b) auto
  obtain p' ls where f: "fetch_violations c (ctx_done st) app r n = (p', ls)" by force
  with rank_fetch_violations [of c "ctx_done st" app r n] have "rank p' < 8" by simp
  with assms AtViolations b f show ?thesis
    by (auto simp: goto_def app_logs_def called_def)
next
  case (AtDeliver rows)
  with assms show ?thesis
    by (cases b) (auto simp: goto_def chan_send_def split: if_splits)
next
  case (AtRelease e)
  with assms show ?thesis by (cases b) (auto simp: goto_def split: if_splits)
next
  case (AtWgDone e)
  with assms show ?thesis by (cases b) (auto simp: goto_def split: if_splits)
next
  case (Finished e)
  with assms show ?thesis by (cases b) auto
qed

lemma step_decreases:
  assumes "step c m apps ev st = Some st'" "\<not> panicked st'"
  shows "steps_left apps st' < steps_left apps st"
proof (cases ev)
  case (Task i b)
  note t = task_step [OF assms(1) [unfolded Task]]
  from goroutine_rank [OF t(3) assms(2) t(2)] obtain p' where
    p': "tasks st' = (tasks st)[i := p']"
    "rank p' + length (buf (resultsChan st')) < rank (tasks st ! i) + length (buf (resultsChan st))"
    "main st' = main st" "closer st' = closer st" "ctx_done st' = ctx_done st"
    by blast
  from sum_list_update_add [OF t(1), of rank p'] p' show ?thesis
    by (simp add: steps_left_def)
next
  case Cancel
  with assms show ?thesis by (auto simp: step_def steps_left_def split: if_splits)
next
  case Launch
  with assms show ?thesis by (auto simp: step_def steps_left_def split: if_splits)
next
  case StartCloser
  with assms show ?thesis by (auto simp: step_def steps_left_def split: if_splits)
next
  case WaitReturns
  with assms show ?thesis by (auto simp: step_def steps_left_def split: if_splits)
next
  case CloseResults
  with assms show ?thesis by (auto simp: step_def steps_left_def split: if_splits)
next
  case Receive
  with assms show ?thesis
    by (auto simp: step_def steps_left_def can_recv_def chan_recv_def split: if_splits)
next
  case EndRange
  with assms show ?thesis by (auto simp: step_def steps_left_def split: if_splits)
qed

lemma holder_exists:
  assumes "inv_sem st" "i < length (tasks st)" "holds_ticket (tasks st ! i)"
  shows "buf (sem st) \<noteq> []"
proof -
  from assms(2,3) have "tasks st ! i \<in> set (filter holds_ticket (tasks st))" by simp
  then have "filter holds_ticket (tasks st) \<noteq> []" by (metis empty_iff empty_set)
  with assms(1) show ?thesis by (auto simp: inv_sem_def)
qed

lemma enabledI:
  "step c m apps ev st \<noteq> None \<Longrightarrow> ev \<noteq> Cancel \<Longrightarrow>
     \<exists>ev st'. ev \<noteq> Cancel \<and> step c m apps ev st = Some st'"
  by auto

lemma progress:
  assumes "inv_sem st" "inv_ctl apps st" "main st \<noteq> Drained"
    "buf (resultsChan st) = [] \<or> main st \<noteq> Ranging"
  shows "\<exists>ev st'. ev \<noteq> Cancel \<and> step c m apps ev st = Some st'"
proof -
  from assms(2) have np: "\<not> panicked st" and le: "length (tasks st) \<le> length apps"
    and cp: "cap (resultsChan st) = length apps"
    by (simp_all add: inv_ctl_def)
  show ?thesis
  proof (cases "main st")
    case Launching
    show ?thesis
    proof (cases "length (tasks st) < length apps")
      case True
      with np Launching have "step c m apps Launch st \<noteq> None" by (simp add: step_def)
      then show ?thesis by (rule enabledI) simp
    next
      case False
      with le np Launching have "step c m apps StartCloser st \<noteq> None" by (simp add: step_def)
      then show ?thesis by (rule enabledI) simp
    qed
  next
    case Drained
    with assms(3) show ?thesis by simp
  next
    case Ranging
    with assms(2,4) have l: "length (tasks st) = length apps" and e: "buf (resultsChan st) = []"
      and ns: "closer st \<noteq> NotStarted"
      by (simp_all add: inv_ctl_def)
    show ?thesis
    proof (cases "\<exists>i<length (tasks st). unfinished (tasks st ! i) \<and> tasks st ! i \<noteq> AtAcquire")
      case True
      then obtain i where i: "i < length (tasks st)" "unfinished (tasks st ! i)"
        "tasks st ! i \<noteq> AtAcquire" by blast
      from i(1) l have ia: "i < length apps" by simp
      have "step c m apps (Task i Proceed) st \<noteq> None"
      proof (cases "tasks st ! i")
        case AtAcquire
        with i show ?thesis by simp
      next
        case AtCtxCheck
        with i ia np show ?thesis by (simp add: step_def)
      next
        case AtReportInfo
        with i ia np show ?thesis by (simp add: step_def split: prod.split)
      next
        case (AtViolations r n)
        with i ia np show ?thesis by (simp add: step_def split: prod.split)
      next
        case (AtDeliver rows)
        with i ia np e cp show ?thesis by (auto simp: step_def can_send_def)
      next
        case (AtRelease x)
        with holder_exists [OF assms(1) i(1)] i ia np show ?thesis
          by (simp add: step_def can_recv_def)
      next
        case (AtWgDone x)
        with i ia np show ?thesis by (simp add: step_def)
      next
        case (Finished x)
        with i show ?thesis by simp
      qed
      then show ?thesis by (rule enabledI) simp
    next
      case False
      then have rest: "\<And>i. i < length (tasks st) \<Longrightarrow>
          tasks st ! i = AtAcquire \<or> \<not> unfinished (tasks st ! i)" by blast
      show ?thesis
      proof (cases "\<exists>i<length (tasks st). tasks st ! i = AtAcquire")
        case True
        then obtain i where i: "i < length (tasks st)" "tasks st ! i = AtAcquire" by blast
        have "\<not> holds_ticket p" if "p \<in> set (tasks st)" for p
        proof -
          from that obtain j where "j < length (tasks st)" "p = tasks st ! j"
            by (auto simp: in_set_conv_nth)
          with rest [of j] have "p = AtAcquire \<or> \<not> unfinished p" by simp
          then show ?thesis by (cases p) auto
        qed
        then have "filter holds_ticket (tasks st) = []" by (simp add: filter_empty_conv)
        with assms(1) have "can_send (sem st)" by (simp add: inv_sem_def can_send_def)
        with i l np have "step c m apps (Task i Proceed) st \<noteq> None" by (simp add: step_def)
        then show ?thesis by (rule enabledI) simp
      next
        case False
        with rest have "\<not> unfinished p" if "p \<in> set (tasks st)" for p
          using that by (auto simp: in_set_conv_nth)
        then have "filter unfinished (tasks st) = []" by (simp add: filter_empty_conv)
        with assms(2) have wg: "wg st = 0" by (simp add: inv_ctl_def)
        show ?thesis
        proof (cases "closer st")
          case NotStarted
          with ns show ?thesis by simp
        next
          case Waiting
          with wg np have "step c m apps WaitReturns st \<noteq> None" by (simp add: step_def)
          then show ?thesis by (rule enabledI) simp
        next
          case Closing
          with np have "step c m apps CloseResults st \<noteq> None" by (simp add: step_def)
          then show ?thesis by (rule enabledI) simp
        next
          case Closed
          with assms(2) e np Ranging have "step c m apps EndRange st \<noteq> None"
            by (simp add: step_def inv_ctl_def can_recv_def)
          then show ?thesis by (rule enabledI) simp
        qed
      qed
    qed
  qed
qed

lemma progress_receive:
  assumes "inv_ctl apps st" "main st = Ranging" "buf (resultsChan st) \<noteq> []"
  shows "\<exists>ev st'. ev \<noteq> Cancel \<and> step c m apps ev st = Some st'"
proof -
  from assms have "step c m apps Receive st \<noteq> None"
    by (simp add: step_def inv_ctl_def can_recv_def)
  then show ?thesis by (rule enabledI) simp
qed

lemma completes:
  assumes "inv_sem st" "inv_ctl apps st"
  shows "\<exists>sched st'. Cancel \<notin> set sched \<and> exec c m apps sched st = Some st' \<and>
           main st' = Drained"
  using assms
proof (induction "steps_left apps st" arbitrary: st rule: less_induct)
  case less
  show ?case
  proof (cases "main st = Drained")
    case True
    have "Cancel \<notin> set [] \<and> exec c m apps [] st = Some st" by simp
    with True show ?thesis by blast
  next
    case False
    have "\<exists>ev st'. ev \<noteq> Cancel \<and> step c m apps ev st = Some st'"
    proof (cases "buf (resultsChan st) = [] \<or> main st \<noteq> Ranging")
      case True
      from progress [OF less.prems False True] show ?thesis .
    next
      case False
      then show ?thesis by (intro progress_receive [OF less.prems(2)]) simp_all
    qed
    then obtain ev st1 where nc: "ev \<noteq> Cancel" and s: "step c m apps ev st = Some st1"
      by blast
    from inv_sem_step [OF less.prems(1) s] inv_ctl_step [OF less.prems(2) s]
    have i: "inv_sem st1" "inv_ctl apps st1" .
    then have "\<not> panicked st1" by (simp add: inv_ctl_def)
    from step_decreases [OF s this] have "steps_left apps st1 < steps_left apps st" .
    from less.hyps [OF this i] obtain sched st' where
      "Cancel \<notin> set sched" "exec c m apps sched st1 = Some st'" "main st' = Drained"
      by blast
    with s nc have "Cancel \<notin> set (ev # sched) \<and>
        exec c m apps (ev # sched) st = Some st' \<and> main st' = Drained" by simp
    then show ?thesis by blast
  qed
qed

lemma exec_append:
  "exec c m apps (xs @ ys) st =
     (case exec c m apps xs st of None \<Rightarrow> None | Some st' \<Rightarrow> exec c m apps ys st')"
  by (induction xs arbitrary: st) (auto split: option.splits)

lemma exec_bounded:
  assumes "exec c m apps sched st = Some st'" "inv_ctl apps st"
  shows "length sched + steps_left apps st' \<le> steps_left apps st"
  using assms
proof (induction sched arbitrary: st)
  case Nil
  then show ?case by simp
next
  case (Cons ev evs)
  then obtain st1 where s: "step c m apps ev st = Some st1" and e: "exec c m apps evs st1 = Some st'"
    by (auto split: option.splits)
  from inv_ctl_step [OF Cons.prems(2) s] have i: "inv_ctl apps st1" .
  then have "\<not> panicked st1" by (simp add: inv_ctl_def)
  from step_decreases [OF s this] Cons.IH [OF e i] show ?case by simp
qed

lemma fan_out_completes:
  "\<exists>sched st. Cancel \<notin> set sched \<and> fan_out s ctx orgID apps orgs sched = Some st \<and>
     main st = Drained"
  unfolding fan_out_def by (rule completes [OF inv_sem_init inv_ctl_init])

lemma fan_out_extends:
  assumes "fan_out s ctx orgID apps orgs sched = Some st"
  shows "\<exists>sched' st'. Cancel \<notin> set sched' \<and>
           fan_out s ctx orgID apps orgs (sched @ sched') = Some st' \<and> main st' = Drained"
proof -
  note inv = fan_out_inv [OF assms]
  from completes [OF inv(1,2), of "cl s" "build_orgIDToName orgs Map.empty"]
  obtain sched' st' where "Cancel \<notin> set sched'"
    "exec (cl s) (build_orgIDToName orgs Map.empty) apps sched' st = Some st'"
    "main st' = Drained" by blast
  with assms have "Cancel \<notin> set sched' \<and>
      fan_out s ctx orgID apps orgs (sched @ sched') = Some st' \<and> main st' = Drained"
    by (simp add: fan_out_def exec_append)
  then show ?thesis by blast
qed

lemma fan_out_bounded:
  assumes "fan_out s ctx orgID apps orgs sched = Some st"
  shows "length sched \<le> 15 * length apps + 7"
proof -
  let ?i = "init_state ctx [CallGetApplications orgID, CallGetOrganizations] apps :: 'a state"
  from assms have "exec (cl s) (build_orgIDToName orgs Map.empty) apps sched ?i = Some st"
    by (simp add: fan_out_def)
  from exec_bounded [OF this inv_ctl_init] have "length sched \<le> steps_left apps ?i" by simp
  also have "\<dots> \<le> 15 * length apps + 7"
    by (simp add: steps_left_def init_state_def make_chan_def)
  finally show ?thesis .
qed

lemma returns:
  "\<exists>sched r. GenerateLatestPolicyReport s pk ctx orgID filename sched = Some r"
proof (cases "GetApplications (cl s) ctx orgID")
  case (Inl e)
  then show ?thesis by (simp add: GenerateLatestPolicyReport_def)
next
  case (Inr apps)
  show ?thesis
  proof (cases "apps = []")
    case True
    with Inr show ?thesis by (simp add: GenerateLatestPolicyReport_def)
  next
    case False
    show ?thesis
    proof (cases "GetOrganizations (cl s) ctx")
      case (Inl e)
      with Inr False show ?thesis by (simp add: GenerateLatestPolicyReport_def)
    next
      case o: (Inr orgs)
      from fan_out_completes [of s ctx orgID apps orgs] obtain sched st where
        f: "fan_out s ctx orgID apps orgs sched = Some st" and d: "main st = Drained" by blast
      from fan_out_inv(2) [OF f] have "\<not> panicked st" by (simp add: inv_ctl_def)
      with Inr False o f d
      have "\<exists>r. GenerateLatestPolicyReport s pk ctx orgID filename sched = Some r"
        by (cases "WriteCSV pk (Join pk (OutputDir (cfg s)) filename) (allViolationRows st)")
           (simp_all add: GenerateLatestPolicyReport_def Let_def)
      then show ?thesis by blast
    qed
  qed
qed

lemma rank_even: "even (rank p)"
  by (cases p) simp_all

lemma rank_holder: "holds_ticket p \<Longrightarrow> rank p \<le> 12"
  by (cases p) simp_all

lemma deliver_room:
  assumes "inv_ctl apps st" "inv_acct st" "i < length (tasks st)" "tasks st ! i = AtDeliver rows"
  shows "\<not> closed (resultsChan st)" "can_send (resultsChan st)"
proof -
  from assms(1) have cp: "cap (resultsChan st) = length apps"
    and le: "length (tasks st) \<le> length apps"
    by (simp_all add: inv_ctl_def)
  from assms(3) have "tasks st ! i \<in> set (tasks st)" by (rule nth_mem)
  moreover from assms(4) have "\<not> sent_rows (tasks st ! i) \<noteq> None" by simp
  ultimately
  have "length (filter (\<lambda>p. sent_rows p \<noteq> None) (tasks st)) < length (tasks st)"
    by (rule length_filter_less)
  with sent_bound [OF assms(2)] le cp show "can_send (resultsChan st)"
    by (simp add: can_send_def)
  show "\<not> closed (resultsChan st)"
  proof
    assume "closed (resultsChan st)"
    with assms(1) have c: "closer st = Closed \<or> closer st = Closing" by (simp add: inv_ctl_def)
    from all_launched [OF assms(1) c] assms(3) have "i < length apps" by simp
    from all_finished [OF assms(1) c this] assms(4) show False by simp
  qed
qed

lemma holder_enabled:
  assumes "inv_sem st" "inv_ctl apps st" "inv_acct st" "i < length (tasks st)"
    "holds_ticket (tasks st ! i)"
  shows "\<exists>st'. step c m apps (Task i Proceed) st = Some st' \<and> \<not> panicked st'"
proof -
  from assms(2,4) have np: "\<not> panicked st" and ia: "i < length apps"
    by (simp_all add: inv_ctl_def)
  have "step c m apps (Task i Proceed) st \<noteq> None"
  proof (cases "tasks st ! i")
    case AtAcquire
    with assms(5) show ?thesis by simp
  next
    case AtCtxCheck
    with assms(4) ia np show ?thesis by (simp add: step_def)
  next
    case AtReportInfo
    with assms(4) ia np show ?thesis by (simp add: step_def split: prod.split)
  next
    case (AtViolations r n)
    with assms(4) ia np show ?thesis by (simp add: step_def split: prod.split)
  next
    case (AtDeliver rows)
    with deliver_room [OF assms(2,3,4)] assms(4) ia np show ?thesis by (simp add: step_def)
  next
    case (AtRelease e)
    with holder_exists [OF assms(1,4,5)] assms(4) ia np show ?thesis
      by (simp add: step_def can_recv_def)
  next
    case (AtWgDone e)
    with assms(5) show ?thesis by simp
  next
    case (Finished e)
    with assms(5) show ?thesis by simp
  qed
  then obtain st' where s: "step c m apps (Task i Proceed) st = Some st'" by blast
  from inv_ctl_step [OF assms(2) s] have "\<not> panicked st'" by (simp add: inv_ctl_def)
  with s show ?thesis by blast
qed

lemma holder_step:
  assumes "goroutine c m app i b p st = Some st'" "holds_ticket p" "\<not> panicked st'"
    "\<not> panicked st" "i < length (tasks st)"
  shows "(\<exists>p'. tasks st' = (tasks st)[i := p'] \<and> holds_ticket p' \<and> rank p' < rank p \<and>
             sem st' = sem st) \<or>
         (\<exists>e. p = AtRelease e \<and> b = Proceed \<and> tasks st' = (tasks st)[i := AtWgDone e] \<and>
             Suc (length (buf (sem st'))) = length (buf (sem st)))"
proof (cases p)
  case AtAcquire
  with assms(2) show ?thesis by simp
next
  case AtCtxCheck
  with assms show ?thesis by (cases b) (auto simp: goto_def split: if_splits)
next
  case AtReportInfo
  with assms have b: "b = Proceed" by (cases b) auto
  obtain p' ls where f: "fetch_report_info c m (ctx_done st) app = (p', ls)" by force
  with rank_fetch_report_info [of c m "ctx_done st" app]
    fetch_report_info_quiet [of c m "ctx_done st" app]
  have "rank p' < 10" "holds_ticket p'" by (simp_all add: quiet_def)
  with assms AtReportInfo b f show ?thesis
    by (auto simp: goto_def app_logs_def called_def)
next
  case (AtViolations r n)
  with assms have b: "b = Proceed" by (cases b) auto
  obtain p' ls where f: "fetch_violations c (ctx_done st) app r n = (p', ls)" by force
  with rank_fetch_violations [of c "ctx_done st" app r n]
    fetch_violations_quiet [of c "ctx_done st" app r n]
  have "rank p' < 8" "holds_ticket p'" by (simp_all add: quiet_def)
  with assms AtViolations b f show ?thesis
    by (auto simp: goto_def app_logs_def called_def)
next
  case (AtDeliver rows)
  with assms show ?thesis
    by (cases b) (auto simp: goto_def split: if_splits)
next
  case (AtRelease e)
  with assms show ?thesis
    by (cases b) (auto simp: goto_def can_recv_def chan_recv_def split: if_splits)
next
  case (AtWgDone e)
  with assms(2) show ?thesis by simp
next
  case (Finished e)
  with assms(2) show ?thesis by simp
qed

lemma holder_releases:
  assumes "inv_sem st" "inv_ctl apps st" "inv_acct st" "i < length (tasks st)"
    "holds_ticket (tasks st ! i)"
  shows "\<exists>k st' e. 2 * k + 2 \<le> rank (tasks st ! i) \<and>
           exec c m apps (replicate k (Task i Proceed)) st = Some st' \<and>
           tasks st' ! i = AtWgDone e \<and>
           Suc (length (buf (sem st'))) = length (buf (sem st))"
  using assms
proof (induction "rank (tasks st ! i)" arbitrary: st rule: less_induct)
  case less
  from holder_enabled [OF less.prems, of c m] obtain st1 where
    s: "step c m apps (Task i Proceed) st = Some st1" and np1: "\<not> panicked st1" by blast
  note t = task_step [OF s]
  from inv_sem_step [OF less.prems(1) s] inv_ctl_step [OF less.prems(2) s]
    inv_acct_step [OF less.prems(3) s]
  have inv1: "inv_sem st1" "inv_ctl apps st1" "inv_acct st1" .
  from holder_step [OF t(3) less.prems(5) np1 t(2) t(1)]
  show ?case
  proof (elim disjE exE conjE)
    fix p'
    assume p': "tasks st1 = (tasks st)[i := p']" "holds_ticket p'"
      "rank p' < rank (tasks st ! i)" "sem st1 = sem st"
    from p'(1) less.prems(4) have i1: "i < length (tasks st1)" "tasks st1 ! i = p'" by simp_all
    with p' have r: "rank (tasks st1 ! i) < rank (tasks st ! i)"
      and h: "holds_ticket (tasks st1 ! i)" by simp_all
    from less.hyps [OF r inv1 i1(1) h] obtain k st' e where
      k: "2 * k + 2 \<le> rank (tasks st1 ! i)"
      "exec c m apps (replicate k (Task i Proceed)) st1 = Some st'"
      "tasks st' ! i = AtWgDone e"
      "Suc (length (buf (sem st'))) = length (buf (sem st1))" by blast
    from r rank_even [of "tasks st1 ! i"] rank_even [of "tasks st ! i"]
    have "rank (tasks st1 ! i) + 2 \<le> rank (tasks st ! i)" by presburger
    with k(1) have "2 * Suc k + 2 \<le> rank (tasks st ! i)" by simp
    moreover from s k(2)
    have "exec c m apps (replicate (Suc k) (Task i Proceed)) st = Some st'" by simp
    ultimately show ?thesis using k(3,4) p'(4) by metis
  next
    fix e
    assume e: "tasks st ! i = AtRelease e" "tasks st1 = (tasks st)[i := AtWgDone e]"
      "Suc (length (buf (sem st1))) = length (buf (sem st))"
    from e(1) have "2 * 1 + 2 \<le> rank (tasks st ! i)" by simp
    moreover from s have "exec c m apps (replicate 1 (Task i Proceed)) st = Some st1" by simp
    moreover from e(2) less.prems(4) have "tasks st1 ! i = AtWgDone e" by simp
    ultimately show ?thesis using e(3) by metis
  qed
qed

lemma drained_sem_empty:
  assumes "inv_sem st" "inv_ctl apps st" "main st = Drained"
  shows "buf (sem st) = []"
proof -
  from assms(2,3) have c: "closer st = Closed \<or> closer st = Closing"
    by (auto simp: inv_ctl_def)
  have "\<not> holds_ticket p" if "p \<in> set (tasks st)" for p
  proof -
    from that obtain i where i: "i < length (tasks st)" "p = tasks st ! i"
      by (auto simp: in_set_conv_nth)
    from all_launched [OF assms(2) c] i(1) have "i < length apps" by simp
    from all_finished [OF assms(2) c this] i(2) obtain e where "p = Finished e" by auto
    then show ?thesis by simp
  qed
  then have "filter holds_ticket (tasks st) = []" by (simp add: filter_empty_conv)
  with assms(1) show ?thesis by (simp add: inv_sem_def)
qed

lemma goroutine_frame:
  assumes "goroutine c m app j b p st = Some st'"
  shows "ctx_done st' = ctx_done st \<and> length (tasks st') = length (tasks st) \<and>
         (\<forall>i. i \<noteq> j \<longrightarrow> tasks st' ! i = tasks st ! i)"
  using assms
proof (cases rule: goroutine_cases)
  case (Quiet p')
  then show ?thesis by (simp add: same_shared_def)
qed (simp_all add: goto_def)

lemma deliver_live:
  assumes "goroutine c m app i b (AtDeliver rows) st = Some st'" "\<not> ctx_done st"
    "i < length (tasks st)" "tasks st ! i = AtDeliver rows"
  shows "b = Proceed \<and> (tasks st' ! i = AtDeliver rows \<or> sent_rows (tasks st' ! i) = Some rows)"
proof (cases b)
  case Proceed
  with assms(1,3,4) show ?thesis by (auto simp: goto_def split: if_splits)
next
  case CtxDone
  with assms(1,2) show ?thesis by simp
qed

lemma sent_rows_cases:
  assumes "sent_rows p = Some rows"
  obtains "p = AtRelease (Delivered rows)" | "p = AtWgDone (Delivered rows)"
    | "p = Finished (Delivered rows)"
  using assms by (cases p rule: sent_rows.cases) simp_all

lemma sent_stays:
  assumes "goroutine c m app i b p st = Some st'" "sent_rows p = Some rows"
    "i < length (tasks st)" "tasks st ! i = p"
  shows "sent_rows (tasks st' ! i) = Some rows"
  using assms(2)
proof (cases rule: sent_rows_cases)
  case 1
  with assms(1,3) show ?thesis by (cases b) (auto simp: goto_def split: if_splits)
next
  case 2
  with assms(1,3,4) show ?thesis by (cases b) (auto simp: goto_def split: if_splits)
next
  case 3
  with assms(1) show ?thesis by (cases b) simp_all
qed

lemma live_delivery_step:
  assumes "step c m apps ev st = Some st'" "ev \<noteq> Cancel" "\<not> ctx_done st"
    "i < length (tasks st)"
    "tasks st ! i = AtDeliver rows \<or> sent_rows (tasks st ! i) = Some rows"
  shows "\<not> ctx_done st' \<and> i < length (tasks st') \<and>
         (tasks st' ! i = AtDeliver rows \<or> sent_rows (tasks st' ! i) = Some rows)"
proof (cases ev)
  case (Task j b)
  note t = task_step [OF assms(1) [unfolded Task]]
  note f = goroutine_frame [OF t(3)]
  show ?thesis
  proof (cases "j = i")
    case False
    with f assms(3,4,5) show ?thesis by simp
  next
    case True
    from assms(5) have "tasks st' ! i = AtDeliver rows \<or> sent_rows (tasks st' ! i) = Some rows"
    proof
      assume "tasks st ! i = AtDeliver rows"
      with deliver_live [of c m "apps ! i" i b rows st st'] t(3) True assms(3,4)
      show ?thesis by simp
    next
      assume "sent_rows (tasks st ! i) = Some rows"
      with sent_stays [of c m "apps ! i" i b "tasks st ! i" st st' rows] t(3) True assms(4)
      show ?thesis by simp
    qed
    with f assms(3,4) show ?thesis by simp
  qed
next
  case Launch
  with assms(1,3,4,5) show ?thesis
    by (auto simp: step_def nth_append split: if_splits)
next
  case Cancel
  with assms(2) show ?thesis by simp
qed (use assms in \<open>auto simp: step_def split: if_splits\<close>)

lemma live_delivery_exec:
  assumes "exec c m apps sched st = Some st'" "Cancel \<notin> set sched" "\<not> ctx_done st"
    "i < length (tasks st)"
    "tasks st ! i = AtDeliver rows \<or> sent_rows (tasks st ! i) = Some rows"
  shows "\<not> ctx_done st' \<and> i < length (tasks st') \<and>
         (tasks st' ! i = AtDeliver rows \<or> sent_rows (tasks st' ! i) = Some rows)"
  using assms
proof (induction sched arbitrary: st)
  case Nil
  then show ?case by simp
next
  case (Cons ev evs)
  then obtain st1 where 1: "step c m apps ev st = Some st1" and 2: "exec c m apps evs st1 = Some st'"
    by (auto split: option.splits)
  from Cons.prems(2) have n: "ev \<noteq> Cancel" "Cancel \<notin> set evs" by auto
  from live_delivery_step [OF 1 n(1) Cons.prems(3,4,5)]
  have "\<not> ctx_done st1" "i < length (tasks st1)"
    "tasks st1 ! i = AtDeliver rows \<or> sent_rows (tasks st1 ! i) = Some rows" by simp_all
  from Cons.IH [OF 2 n(2) this] show ?case .
qed

lemma fetch_report_info_failure:
  assumes "fetch_report_info c m ctx app = (AtRelease e, ls)"
    "(\<exists>err. e = ReportInfoFailed err \<or> e = ViolationsFailed err) \<or> e = ParseFailed"
  shows "\<exists>msg. ls = [(Error, msg)]"
  using assms
  by (auto simp: fetch_report_info_def split: sum.splits option.splits if_splits prod.splits)

lemma fetch_violations_failure:
  assumes "fetch_violations c ctx app r n = (AtRelease e, ls)"
  shows "\<exists>msg. ls = [(Error, msg)]"
  using assms by (auto simp: fetch_violations_def split: sum.splits)

lemma failure_logged:
  assumes "step c m apps (Task i b) st = Some st'" "tasks st' ! i = AtRelease e"
    "(\<exists>err. e = ReportInfoFailed err \<or> e = ViolationsFailed err) \<or> e = ParseFailed"
  shows "resultsChan st' = resultsChan st \<and>
         (\<exists>msg. applog st' = applog st @
            [\<lparr>lvl = Error, appPublicID = PublicID (apps ! i),
              appInternalID = Application.ID (apps ! i), msg = msg\<rparr>])"
proof -
  note t = task_step [OF assms(1)]
  show ?thesis
  proof (cases "tasks st ! i")
    case AtAcquire
    with t assms(2,3) show ?thesis by (cases b) (auto simp: goto_def split: if_splits)
  next
    case AtCtxCheck
    with t assms(2,3) show ?thesis by (cases b) (auto simp: goto_def split: if_splits)
  next
    case AtReportInfo
    from t(3) AtReportInfo have b: "b = Proceed" by (cases b) auto
    obtain p ls where f: "fetch_report_info c m (ctx_done st) (apps ! i) = (p, ls)" by force
    with t AtReportInfo b
    have s: "st' = goto i p (app_logs (apps ! i) ls
                     (called (CallGetLatestReportInfo (Application.ID (apps ! i))) st))"
      by simp
    with t(1) assms(2) have "p = AtRelease e" by (simp add: goto_def app_logs_def called_def)
    with f fetch_report_info_failure [of c m "ctx_done st" "apps ! i" e ls] assms(3)
    obtain msg where "ls = [(Error, msg)]" by blast
    with s show ?thesis by (simp add: goto_def app_logs_def called_def)
  next
    case (AtViolations r n)
    from t(3) AtViolations have b: "b = Proceed" by (cases b) auto
    obtain p ls where f: "fetch_violations c (ctx_done st) (apps ! i) r n = (p, ls)" by force
    with t AtViolations b
    have s: "st' = goto i p (app_logs (apps ! i) ls
                     (called (CallGetPolicyViolations (PublicID (apps ! i)) r n) st))"
      by simp
    with t(1) assms(2) have "p = AtRelease e" by (simp add: goto_def app_logs_def called_def)
    with f fetch_violations_failure [of c "ctx_done st" "apps ! i" r n e ls]
    obtain msg where "ls = [(Error, msg)]" by blast
    with s show ?thesis by (simp add: goto_def app_logs_def called_def)
  next
    case (AtDeliver rows)
    with t assms(2,3) show ?thesis by (cases b) (auto simp: goto_def split: if_splits)
  next
    case (AtRelease e')
    with t assms(2,3) show ?thesis by (cases b) (auto simp: goto_def split: if_splits)
  next
    case (AtWgDone e')
    with t assms(2,3) show ?thesis by (cases b) (auto simp: goto_def split: if_splits)
  next
    case (Finished e')
    with t assms(2,3) show ?thesis by (cases b) auto
  qed
qed

lemma failed_call_step:
  assumes "i < length (tasks st)" "i < length apps" "\<not> panicked st"
  shows "tasks st ! i = AtReportInfo \<and>
           GetLatestReportInfo c (ctx_done st) (Application.ID (apps ! i)) = Inl err \<longrightarrow>
         (\<exists>st'. step c m apps (Task i Proceed) st = Some st' \<and>
            tasks st' ! i = AtRelease (ReportInfoFailed err) \<and>
            resultsChan st' = resultsChan st \<and>
            applog st' = applog st @
              [\<lparr>lvl = Error, appPublicID = PublicID (apps ! i),
                appInternalID = Application.ID (apps ! i),
                msg = ''failed to fetch latest report info''\<rparr>])"
    "tasks st ! i = AtViolations r n \<and>
           GetPolicyViolations c (ctx_done st) (PublicID (apps ! i)) r n = Inl err \<longrightarrow>
         (\<exists>st'. step c m apps (Task i Proceed) st = Some st' \<and>
            tasks st' ! i = AtRelease (ViolationsFailed err) \<and>
            resultsChan st' = resultsChan st \<and>
            applog st' = applog st @
              [\<lparr>lvl = Error, appPublicID = PublicID (apps ! i),
                appInternalID = Application.ID (apps ! i),
                msg = ''failed to fetch policy violations''\<rparr>])"
  using assms
  by (simp_all add: step_def fetch_report_info_def fetch_violations_def goto_def app_logs_def
      called_def)

lemma delivery_step:
  assumes "inv_ctl apps st" "inv_acct st" "i < length (tasks st)" "tasks st ! i = AtDeliver rows"
  shows "\<exists>st'. step c m apps (Task i Proceed) st = Some st' \<and> \<not> panicked st' \<and>
           buf (resultsChan st') = buf (resultsChan st) @ [\<lparr>Rows = rows, Err = None\<rparr>] \<and>
           tasks st' ! i = AtRelease (Delivered rows)"
    "\<not> ctx_done st \<longrightarrow> step c m apps (Task i CtxDone) st = None"
proof -
  from assms(1,3) have np: "\<not> panicked st" and ia: "i < length apps"
    by (simp_all add: inv_ctl_def)
  from deliver_room [OF assms] assms(3,4) ia np
  show "\<exists>st'. step c m apps (Task i Proceed) st = Some st' \<and> \<not> panicked st' \<and>
           buf (resultsChan st') = buf (resultsChan st) @ [\<lparr>Rows = rows, Err = None\<rparr>] \<and>
           tasks st' ! i = AtRelease (Delivered rows)"
    by (simp add: step_def goto_def chan_send_def)
  from assms(3,4) ia np show "\<not> ctx_done st \<longrightarrow> step c m apps (Task i CtxDone) st = None"
    by (simp add: step_def)
qed

lemma sent_rows_Finished:
  "sent_rows (Finished e) = (case e of Delivered rows \<Rightarrow> Some rows | _ \<Rightarrow> None)"
  by (cases e) simp_all

lemma live_delivery_run:
  assumes "fan_out s ctx orgID apps orgs sched = Some st"
    "fan_out s ctx orgID apps orgs (sched @ sched') = Some st'"
    "\<not> ctx_done st" "Cancel \<notin> set sched'" "i < length (tasks st)"
    "tasks st ! i = AtDeliver rows"
  shows "(tasks st' ! i = AtDeliver rows \<or> sent_rows (tasks st' ! i) = Some rows) \<and>
         (main st' = Drained \<longrightarrow>
            tasks st' ! i = Finished (Delivered rows) \<and>
            (\<exists>order. distinct order \<and> i \<in> set order \<and>
               allViolationRows st' = concat (map (\<lambda>j. rows_sent (tasks st' ! j)) order)))"
proof -
  let ?m = "build_orgIDToName orgs Map.empty"
  from assms(1,2) have e: "exec (cl s) ?m apps sched' st = Some st'"
    by (simp add: fan_out_def exec_append)
  from assms(6) have "tasks st ! i = AtDeliver rows \<or> sent_rows (tasks st ! i) = Some rows"
    by simp
  from live_delivery_exec [OF e assms(4,3,5) this]
  have l: "i < length (tasks st')"
    and d: "tasks st' ! i = AtDeliver rows \<or> sent_rows (tasks st' ! i) = Some rows"
    by simp_all
  note inv = fan_out_inv [OF assms(2)]
  have D: "main st' = Drained \<longrightarrow>
        tasks st' ! i = Finished (Delivered rows) \<and>
        (\<exists>order. distinct order \<and> i \<in> set order \<and>
           allViolationRows st' = concat (map (\<lambda>j. rows_sent (tasks st' ! j)) order))"
  proof
    assume dr: "main st' = Drained"
    from inv(2) dr have c: "closer st' = Closed \<or> closer st' = Closing"
      by (auto simp: inv_ctl_def)
    from all_launched [OF inv(2) c] l have ia: "i < length apps" by simp
    from all_finished [OF inv(2) c ia] obtain e where f: "tasks st' ! i = Finished e" by blast
    with d have 1: "tasks st' ! i = Finished (Delivered rows)"
      by (cases e) simp_all
    from drained_rows [OF inv(3,2) dr] obtain order where
      o: "distinct order"
      "set order = {i. i < length apps \<and> sent_rows (tasks st' ! i) \<noteq> None}"
      "allViolationRows st' = concat (map (\<lambda>i. rows_sent (tasks st' ! i)) order)" by blast
    from o(2) ia 1 have "i \<in> set order" by simp
    with o(1,3) have "\<exists>order. distinct order \<and> i \<in> set order \<and>
           allViolationRows st' = concat (map (\<lambda>j. rows_sent (tasks st' ! j)) order)"
      by (intro exI [where x = order] conjI)
    with 1 show "tasks st' ! i = Finished (Delivered rows) \<and>
        (\<exists>order. distinct order \<and> i \<in> set order \<and>
           allViolationRows st' = concat (map (\<lambda>j. rows_sent (tasks st' ! j)) order))"
      by (intro conjI)
  qed
  from d D show ?thesis by (intro conjI)
qed

lemma fetch_report_info_no_rows:
  "fst (fetch_report_info c m ctx app) \<noteq> AtDeliver rows"
  by (auto simp: fetch_report_info_def split: sum.splits option.splits if_splits prod.splits)

lemma fetch_violations_rows:
  assumes "fst (fetch_violations c ctx app r n) = AtDeliver rows"
  shows "fetched c app rows"
  using assms
  by (auto simp: fetch_violations_def fetched_def convert_rows_map split: sum.splits)

lemma quiet_sent: "quiet p \<Longrightarrow> sent_rows p = None"
  by (simp add: quiet_def)

lemma goroutine_rows:
  assumes "goroutine c m app i b p st = Some st'" "i < length (tasks st)" "tasks st ! i = p"
    "tasks st' ! i = AtDeliver rows \<or> sent_rows (tasks st' ! i) = Some rows"
  shows "(p = AtDeliver rows \<or> sent_rows p = Some rows) \<or> fetched c app rows"
proof (cases p)
  case AtAcquire
  with assms(1,2,4) show ?thesis by (cases b) (auto simp: goto_def split: if_splits)
next
  case AtCtxCheck
  with assms(1,2,4) show ?thesis by (cases b) (auto simp: goto_def split: if_splits)
next
  case AtReportInfo
  from assms(1) AtReportInfo have b: "b = Proceed" by (cases b) auto
  obtain p' ls where f: "fetch_report_info c m (ctx_done st) app = (p', ls)" by force
  with assms(1,2) AtReportInfo b have t: "tasks st' ! i = p'"
    by (auto simp: goto_def app_logs_def called_def)
  from f fetch_report_info_quiet [of c m "ctx_done st" app]
    fetch_report_info_no_rows [of c m "ctx_done st" app rows]
  have "sent_rows p' = None" "p' \<noteq> AtDeliver rows" by (simp_all add: quiet_sent)
  with t assms(4) show ?thesis by simp
next
  case (AtViolations r n)
  from assms(1) AtViolations have b: "b = Proceed" by (cases b) auto
  obtain p' ls where f: "fetch_violations c (ctx_done st) app r n = (p', ls)" by force
  with assms(1,2) AtViolations b have t: "tasks st' ! i = p'"
    by (auto simp: goto_def app_logs_def called_def)
  from f fetch_violations_quiet [of c "ctx_done st" app r n]
  have "sent_rows p' = None" by (simp add: quiet_sent)
  with t assms(4) have "p' = AtDeliver rows" by simp
  with f fetch_violations_rows [of c "ctx_done st" app r n rows]
  show ?thesis by simp
next
  case (AtDeliver rows')
  with assms show ?thesis by (cases b) (auto simp: goto_def split: if_splits)
next
  case (AtRelease e)
  with assms show ?thesis
    by (cases b) (auto simp: goto_def sent_rows_exit split: if_splits)
next
  case (AtWgDone e)
  have "sent_rows (Finished e) = sent_rows (AtWgDone e)" by (cases e) simp_all
  with AtWgDone assms show ?thesis by (cases b) (auto simp: goto_def split: if_splits)
next
  case (Finished e)
  with assms(1) show ?thesis by (cases b) simp_all
qed

lemma inv_rows_init: "inv_rows c apps (init_state ctx cs apps)"
  by (simp add: inv_rows_def init_state_def)

lemma inv_rows_step:
  assumes "inv_rows c apps st" "step c m apps ev st = Some st'"
  shows "inv_rows c apps st'"
proof (cases ev)
  case (Task j b)
  note t = task_step [OF assms(2) [unfolded Task]]
  note f = goroutine_frame [OF t(3)]
  show ?thesis unfolding inv_rows_def
  proof (intro allI impI)
    fix i rows
    assume i: "i < length (tasks st')"
      and a: "tasks st' ! i = AtDeliver rows \<or> sent_rows (tasks st' ! i) = Some rows"
    from i f have i': "i < length (tasks st)" by simp
    show "fetched c (apps ! i) rows"
    proof (cases "i = j")
      case True
      from goroutine_rows [OF t(3) t(1) refl] a True
      have "(tasks st ! i = AtDeliver rows \<or> sent_rows (tasks st ! i) = Some rows) \<or>
            fetched c (apps ! i) rows" by simp
      with assms(1) i' show ?thesis by (auto simp: inv_rows_def)
    next
      case False
      with f a have "tasks st ! i = AtDeliver rows \<or> sent_rows (tasks st ! i) = Some rows"
        by simp
      with assms(1) i' show ?thesis by (auto simp: inv_rows_def)
    qed
  qed
next
  case Launch
  with assms show ?thesis
    by (auto simp: step_def inv_rows_def nth_append less_Suc_eq split: if_splits)
qed (use assms in \<open>auto simp: step_def inv_rows_def split: if_splits\<close>)

lemma fan_out_rows:
  assumes "fan_out s ctx orgID apps orgs sched = Some st"
  shows "inv_rows (cl s) apps st"
proof -
  let ?i = "init_state ctx [CallGetApplications orgID, CallGetOrganizations] apps :: 'a state"
  from assms have e: "exec (cl s) (build_orgIDToName orgs Map.empty) apps sched ?i = Some st"
    by (simp add: fan_out_def)
  show ?thesis
    by (rule exec_invariant [where P = "inv_rows (cl s) apps", OF e inv_rows_init])
      (rule inv_rows_step)
qed

lemma received_rows:
  assumes "inv_acct st" "inv_ctl apps st" "inv_rows c apps st"
  shows "\<exists>recv. distinct recv \<and>
           (\<forall>i\<in>set recv. i < length apps \<and>
              (\<exists>cx r n clientRows.
                 GetPolicyViolations c cx (PublicID (apps ! i)) r n = Inr clientRows \<and>
                 sent_rows (tasks st ! i) = Some (map to_report_row clientRows))) \<and>
           allViolationRows st = concat (map (\<lambda>i. rows_sent (tasks st ! i)) recv) \<and>
           (main st = Drained \<longrightarrow>
              set recv = {i. i < length apps \<and> sent_rows (tasks st ! i) \<noteq> None})"
proof -
  from acct_final [OF assms(1)] obtain order k where a: "delivered_in_order st order k"
    by (elim exE)
  from a have d: "distinct order" unfolding delivered_in_order_def by (elim conjE)
  from a have k: "k \<le> length order" unfolding delivered_in_order_def by (elim conjE)
  from a have so: "set order = {i. i < length (tasks st) \<and> sent_rows (tasks st ! i) \<noteq> None}"
    unfolding delivered_in_order_def by (elim conjE)
  from a have agg: "allViolationRows st =
      concat (map (\<lambda>i. rows_sent (tasks st ! i)) (take k order))"
    unfolding delivered_in_order_def by (elim conjE)
  from a have b: "buf (resultsChan st) =
        map (\<lambda>i. \<lparr>Rows = rows_sent (tasks st ! i), Err = None\<rparr>) (drop k order)"
    unfolding delivered_in_order_def by (elim conjE)
  from assms(2) have le: "length (tasks st) \<le> length apps" by (simp add: inv_ctl_def)
  let ?recv = "take k order"
  from d have 1: "distinct ?recv" by simp
  have 2: "\<forall>i\<in>set ?recv. i < length apps \<and>
              (\<exists>cx r n clientRows.
                 GetPolicyViolations c cx (PublicID (apps ! i)) r n = Inr clientRows \<and>
                 sent_rows (tasks st ! i) = Some (map to_report_row clientRows))"
  proof
    fix i assume "i \<in> set ?recv"
    then have "i \<in> set order" by (rule in_set_takeD)
    with so have i: "i < length (tasks st)" and s: "sent_rows (tasks st ! i) \<noteq> None"
      by simp_all
    from s obtain rows where r: "sent_rows (tasks st ! i) = Some rows" by auto
    with assms(3) i have "fetched c (apps ! i) rows" by (simp add: inv_rows_def)
    with r have "\<exists>cx r n clientRows.
                 GetPolicyViolations c cx (PublicID (apps ! i)) r n = Inr clientRows \<and>
                 sent_rows (tasks st ! i) = Some (map to_report_row clientRows)"
      by (auto simp: fetched_def)
    with i le show "i < length apps \<and>
              (\<exists>cx r n clientRows.
                 GetPolicyViolations c cx (PublicID (apps ! i)) r n = Inr clientRows \<and>
                 sent_rows (tasks st ! i) = Some (map to_report_row clientRows))"
      by simp
  qed
  have 4: "main st = Drained \<longrightarrow>
              set ?recv = {i. i < length apps \<and> sent_rows (tasks st ! i) \<noteq> None}"
  proof
    assume dr: "main st = Drained"
    with assms(2) have e: "buf (resultsChan st) = []" and l: "length (tasks st) = length apps"
      by (simp_all add: inv_ctl_def)
    from e b k have "k = length order" by simp
    with so l show "set ?recv = {i. i < length apps \<and> sent_rows (tasks st ! i) \<noteq> None}"
      by simp
  qed
  from 1 2 agg 4 show ?thesis by (intro exI [where x = ?recv] conjI)
qed

lemma drained_count:
  assumes "inv_acct st" "inv_ctl apps st" "main st = Drained"
  shows "length (allViolationRows st) = (\<Sum>i<length apps. length (rows_sent (tasks st ! i)))"
proof -
  from drained_rows [OF assms] obtain order where d: "distinct order"
    and so: "set order = {i. i < length apps \<and> sent_rows (tasks st ! i) \<noteq> None}"
    and agg: "allViolationRows st = concat (map (\<lambda>i. rows_sent (tasks st ! i)) order)"
    by (elim exE conjE)
  have "length (allViolationRows st) =
      sum_list (map (\<lambda>i. length (rows_sent (tasks st ! i))) order)"
    unfolding agg by (simp add: length_concat comp_def)
  also have "\<dots> = sum (\<lambda>i. length (rows_sent (tasks st ! i))) (set order)"
    using d by (rule sum_list_distinct_conv_sum_set)
  also have "\<dots> = sum (\<lambda>i. length (rows_sent (tasks st ! i))) {..<length apps}"
  proof (rule sum.mono_neutral_left)
    show "finite {..<length apps}" by simp
    show "set order \<subseteq> {..<length apps}" unfolding so by auto
    show "\<forall>i\<in>{..<length apps} - set order. length (rows_sent (tasks st ! i)) = 0"
      unfolding so by (auto simp: rows_sent_def)
  qed
  finally show ?thesis .
qed

section \<open>The claims\<close>

text \<open>
  C1. Failure isolation. Take a call whose application list (not empty) and organization
  list were fetched, and a schedule that takes the concurrent part to the end of the
  \<^verbatim>\<open>range\<close> loop. Then every goroutine has finished; the aggregated rows are, as a multiset,
  the union of the rows of the goroutines that delivered, and a goroutine that left at the
  metadata fetch, the blank check, the report-identifier parse, the violations fetch or a
  cancellation contributes none. When the context is never cancelled, each goroutine has
  left where \<open>process_application\<close> says for its own application, whatever the others did.
  The call returns, and its error is the error of the CSV write, if any.
\<close>

theorem failure_isolation:
  assumes "GetApplications (cl s) ctx orgID = Inr apps" "apps \<noteq> []"
    "GetOrganizations (cl s) ctx = Inr orgs"
    "fan_out s ctx orgID apps orgs sched = Some st" "main st = Drained"
  shows "(\<forall>i<length apps. \<exists>e. tasks st ! i = Finished e \<and>
            rows_sent (tasks st ! i) = (case e of Delivered rows \<Rightarrow> rows | _ \<Rightarrow> [])) \<and>
         mset (allViolationRows st) = (\<Sum>i<length apps. mset (rows_sent (tasks st ! i))) \<and>
         (\<not> ctx \<and> Cancel \<notin> set sched \<longrightarrow>
            (\<forall>i<length apps. tasks st ! i =
               Finished (process_application (cl s) (build_orgIDToName orgs Map.empty) False
                 (apps ! i)))) \<and>
         (\<exists>r. GenerateLatestPolicyReport s pk ctx orgID filename sched = Some r \<and>
              ret_err r = map_option (Wrapf ''write csv'')
                (WriteCSV pk (Join pk (OutputDir (cfg s)) filename) (allViolationRows st)))"
proof -
  note inv = fan_out_inv [OF assms(4)]
  from inv(2) assms(5) have c: "closer st = Closed \<or> closer st = Closing"
    and np: "\<not> panicked st"
    by (auto simp: inv_ctl_def)
  have 1: "\<forall>i<length apps. \<exists>e. tasks st ! i = Finished e \<and>
            rows_sent (tasks st ! i) = (case e of Delivered rows \<Rightarrow> rows | _ \<Rightarrow> [])"
  proof (intro allI impI)
    fix i assume "i < length apps"
    from all_finished [OF inv(2) c this] obtain e where "tasks st ! i = Finished e"
      by (elim exE)
    then show "\<exists>e. tasks st ! i = Finished e \<and>
            rows_sent (tasks st ! i) = (case e of Delivered rows \<Rightarrow> rows | _ \<Rightarrow> [])"
      by (simp add: rows_sent_Finished)
  qed
  note 2 = drained_mset [OF inv(3) inv(2) assms(5)]
  have 3: "\<not> ctx \<and> Cancel \<notin> set sched \<longrightarrow>
            (\<forall>i<length apps. tasks st ! i =
               Finished (process_application (cl s) (build_orgIDToName orgs Map.empty) False
                 (apps ! i)))"
  proof (intro allI impI)
    fix i assume h: "\<not> ctx \<and> Cancel \<notin> set sched" and i: "i < length apps"
    from h have "inv_calm (cl s) (build_orgIDToName orgs Map.empty) apps st"
      by (intro fan_out_calm [OF assms(4)]) simp_all
    from drained_calm [OF inv(2) this assms(5) i]
    show "tasks st ! i = Finished (process_application (cl s)
        (build_orgIDToName orgs Map.empty) False (apps ! i))" .
  qed
  have 4: "\<exists>r. GenerateLatestPolicyReport s pk ctx orgID filename sched = Some r \<and>
              ret_err r = map_option (Wrapf ''write csv'')
                (WriteCSV pk (Join pk (OutputDir (cfg s)) filename) (allViolationRows st))"
    using assms np
    by (cases "WriteCSV pk (Join pk (OutputDir (cfg s)) filename) (allViolationRows st)")
       (simp_all add: GenerateLatestPolicyReport_def Let_def)
  from 1 2 3 4 show ?thesis by (intro conjI)
qed

theorem failure_isolation_witness:
  "\<exists>st. fan_out (ex_service\<lparr>cl := ex_failing_client2\<rparr>) False None [ex_app1, ex_app2] [ex_org]
            ex_schedule2 = Some st \<and>
     tasks st = [Finished (Delivered (convert_rows [ex_row ''sec-high'' 9, ex_row ''sec-low'' 2])),
                 Finished (ViolationsFailed (Errorf ''HTTP 500''))] \<and>
     allViolationRows st = convert_rows [ex_row ''sec-high'' 9, ex_row ''sec-low'' 2] \<and>
     (\<exists>r. GenerateLatestPolicyReport (ex_service\<lparr>cl := ex_failing_client2\<rparr>) ex_packages False
            None ''report.csv'' ex_schedule2 = Some r \<and> ret_err r = None)"
proof -
  let ?s = "ex_service\<lparr>cl := ex_failing_client2\<rparr>"
  have "fan_out ?s False None [ex_app1, ex_app2] [ex_org] ex_schedule2 \<noteq> None"
    by code_simp
  then obtain st :: "nat state" where
    h: "fan_out ?s False None [ex_app1, ex_app2] [ex_org] ex_schedule2 = Some st"
    by blast
  have a: "GetApplications (cl ?s) False None = Inr [ex_app1, ex_app2]"
    and o: "GetOrganizations (cl ?s) False = Inr [ex_org]"
    by (simp_all add: ex_service_def ex_failing_client2_def ex_client_def)
  have d: "main (the (fan_out ?s False None [ex_app1, ex_app2] [ex_org] ex_schedule2)) = Drained"
    by code_simp
  have t: "tasks (the (fan_out ?s False None [ex_app1, ex_app2] [ex_org] ex_schedule2)) =
      [Finished (Delivered (convert_rows [ex_row ''sec-high'' 9, ex_row ''sec-low'' 2])),
       Finished (ViolationsFailed (Errorf ''HTTP 500''))]"
    by code_simp
  have r: "allViolationRows (the (fan_out ?s False None [ex_app1, ex_app2] [ex_org] ex_schedule2))
      = convert_rows [ex_row ''sec-high'' 9, ex_row ''sec-low'' 2]"
    by code_simp
  have w: "WriteCSV ex_packages p rs = None" for p rs by (simp add: ex_packages_def)
  from h d have d': "main st = Drained" by simp
  from failure_isolation [OF a _ o h d', of ex_packages "''report.csv''"] h t r w
  show ?thesis by simp
qed

text \<open>
  C2. Admission bound with release. In every state a run can reach, the number of
  goroutines between the acquisition of a ticket and its release equals the number of tokens
  in the semaphore, whose capacity is 10, and so is at most 10. A step by which a goroutine
  stops holding a ticket takes one token out of the semaphore (the deferred receive),
  whatever return statement it left by; a goroutine that leaves the acquisition \<^verbatim>\<open>select\<close>
  by the cancellation branch leaves the semaphore as it is and goes to \<^verbatim>\<open>wg.Done()\<close>
  without a release. A goroutine that holds a ticket can always take its next step, which
  does not panic, and after at most five steps of its own it has released: it is at
  \<^verbatim>\<open>wg.Done()\<close> and the semaphore holds one token fewer. Every step of a holder either
  keeps the ticket and leaves the semaphore as it is, or is that release. Every run can be
  continued, without a cancellation, to the end of the \<^verbatim>\<open>range\<close> loop, where every
  goroutine has finished and the semaphore is empty.
\<close>

theorem admission_bound:
  assumes "fan_out s ctx orgID apps orgs sched = Some st"
  shows "cap (sem st) = 10 \<and>
         length (filter holds_ticket (tasks st)) = length (buf (sem st)) \<and>
         length (filter holds_ticket (tasks st)) \<le> 10 \<and>
         (main st = Drained \<longrightarrow> buf (sem st) = []) \<and>
         (\<forall>i b st'.
            step (cl s) (build_orgIDToName orgs Map.empty) apps (Task i b) st = Some st' \<longrightarrow>
              (holds_ticket (tasks st ! i) \<and> \<not> holds_ticket (tasks st' ! i) \<longrightarrow>
                 Suc (length (buf (sem st'))) = length (buf (sem st))) \<and>
              (tasks st ! i = AtAcquire \<and> b = CtxDone \<longrightarrow>
                 sem st' = sem st \<and> tasks st' ! i = AtWgDone AcquireCancelled)) \<and>
         (\<forall>i<length (tasks st). holds_ticket (tasks st ! i) \<longrightarrow>
            (\<exists>st'. step (cl s) (build_orgIDToName orgs Map.empty) apps (Task i Proceed) st
                     = Some st' \<and> \<not> panicked st') \<and>
            (\<exists>k st' e. k \<le> 5 \<and>
               exec (cl s) (build_orgIDToName orgs Map.empty) apps
                 (replicate k (Task i Proceed)) st = Some st' \<and>
               tasks st' ! i = AtWgDone e \<and>
               Suc (length (buf (sem st'))) = length (buf (sem st)))) \<and>
         (\<forall>i b st'.
            step (cl s) (build_orgIDToName orgs Map.empty) apps (Task i b) st = Some st' \<and>
            holds_ticket (tasks st ! i) \<longrightarrow>
              \<not> panicked st' \<and>
              (holds_ticket (tasks st' ! i) \<and> sem st' = sem st \<or>
               (\<exists>e. tasks st ! i = AtRelease e \<and> b = Proceed \<and> tasks st' ! i = AtWgDone e \<and>
                    Suc (length (buf (sem st'))) = length (buf (sem st))))) \<and>
         (\<exists>sched' st'. Cancel \<notin> set sched' \<and>
            fan_out s ctx orgID apps orgs (sched @ sched') = Some st' \<and>
            main st' = Drained \<and> buf (sem st') = [] \<and>
            (\<forall>i<length apps. \<exists>e. tasks st' ! i = Finished e))"
proof -
  let ?m = "build_orgIDToName orgs Map.empty"
  note inv = fan_out_inv [OF assms]
  from inv(1) have 1: "cap (sem st) = 10"
    and 2: "length (filter holds_ticket (tasks st)) = length (buf (sem st))"
    and 3: "length (filter holds_ticket (tasks st)) \<le> 10"
    by (simp_all add: inv_sem_def)
  have 4: "main st = Drained \<longrightarrow> buf (sem st) = []"
    using drained_sem_empty [OF inv(1,2)] by blast
  have 5: "\<forall>i b st'. step (cl s) ?m apps (Task i b) st = Some st' \<longrightarrow>
              (holds_ticket (tasks st ! i) \<and> \<not> holds_ticket (tasks st' ! i) \<longrightarrow>
                 Suc (length (buf (sem st'))) = length (buf (sem st))) \<and>
              (tasks st ! i = AtAcquire \<and> b = CtxDone \<longrightarrow>
                 sem st' = sem st \<and> tasks st' ! i = AtWgDone AcquireCancelled)"
  proof (intro allI impI)
    fix i b st'
    assume st: "step (cl s) ?m apps (Task i b) st = Some st'"
    note t = task_step [OF st]
    from t(3) show "(holds_ticket (tasks st ! i) \<and> \<not> holds_ticket (tasks st' ! i) \<longrightarrow>
                 Suc (length (buf (sem st'))) = length (buf (sem st))) \<and>
              (tasks st ! i = AtAcquire \<and> b = CtxDone \<longrightarrow>
                 sem st' = sem st \<and> tasks st' ! i = AtWgDone AcquireCancelled)"
    proof (cases rule: goroutine_cases)
      case Acquire
      with t(1) show ?thesis by (simp add: goto_def)
    next
      case Leave
      with t(1) show ?thesis by (simp add: goto_def)
    next
      case (Quiet p')
      with t(1) show ?thesis by (cases b) (auto simp: quiet_def)
    next
      case (Send rows)
      with t(1) show ?thesis by (simp add: goto_def)
    next
      case (SendPanic rows)
      then show ?thesis by simp
    next
      case (Release e)
      with t(1) show ?thesis by (simp add: goto_def can_recv_def chan_recv_def)
    next
      case (WgDone e)
      with t(1) show ?thesis by (simp add: goto_def)
    next
      case (WgPanic e)
      then show ?thesis by simp
    qed
  qed
  have 6: "\<forall>i<length (tasks st). holds_ticket (tasks st ! i) \<longrightarrow>
            (\<exists>st'. step (cl s) ?m apps (Task i Proceed) st = Some st' \<and> \<not> panicked st') \<and>
            (\<exists>k st' e. k \<le> 5 \<and>
               exec (cl s) ?m apps (replicate k (Task i Proceed)) st = Some st' \<and>
               tasks st' ! i = AtWgDone e \<and>
               Suc (length (buf (sem st'))) = length (buf (sem st)))"
  proof (intro allI impI conjI)
    fix i assume i: "i < length (tasks st)" and h: "holds_ticket (tasks st ! i)"
    show "\<exists>st'. step (cl s) ?m apps (Task i Proceed) st = Some st' \<and> \<not> panicked st'"
      by (rule holder_enabled [OF inv i h])
    from holder_releases [OF inv i h, of "cl s" ?m] obtain k st' e where
      k: "2 * k + 2 \<le> rank (tasks st ! i)"
      "exec (cl s) ?m apps (replicate k (Task i Proceed)) st = Some st'"
      "tasks st' ! i = AtWgDone e"
      "Suc (length (buf (sem st'))) = length (buf (sem st))" by blast
    from k(1) rank_holder [OF h] have "k \<le> 5" by simp
    with k(2,3,4)
    show "\<exists>k st' e. k \<le> 5 \<and>
               exec (cl s) ?m apps (replicate k (Task i Proceed)) st = Some st' \<and>
               tasks st' ! i = AtWgDone e \<and>
               Suc (length (buf (sem st'))) = length (buf (sem st))"
      by (intro exI conjI)
  qed
  have 7: "\<forall>i b st'. step (cl s) ?m apps (Task i b) st = Some st' \<and>
            holds_ticket (tasks st ! i) \<longrightarrow>
              \<not> panicked st' \<and>
              (holds_ticket (tasks st' ! i) \<and> sem st' = sem st \<or>
               (\<exists>e. tasks st ! i = AtRelease e \<and> b = Proceed \<and> tasks st' ! i = AtWgDone e \<and>
                    Suc (length (buf (sem st'))) = length (buf (sem st))))"
  proof (intro allI impI, elim conjE)
    fix i b st'
    assume st: "step (cl s) ?m apps (Task i b) st = Some st'"
      and h: "holds_ticket (tasks st ! i)"
    note t = task_step [OF st]
    from inv_ctl_step [OF inv(2) st] have np: "\<not> panicked st'" by (simp add: inv_ctl_def)
    from holder_step [OF t(3) h np t(2) t(1)] t(1) np
    show "\<not> panicked st' \<and>
              (holds_ticket (tasks st' ! i) \<and> sem st' = sem st \<or>
               (\<exists>e. tasks st ! i = AtRelease e \<and> b = Proceed \<and> tasks st' ! i = AtWgDone e \<and>
                    Suc (length (buf (sem st'))) = length (buf (sem st))))"
      by auto
  qed
  have 8: "\<exists>sched' st'. Cancel \<notin> set sched' \<and>
            fan_out s ctx orgID apps orgs (sched @ sched') = Some st' \<and>
            main st' = Drained \<and> buf (sem st') = [] \<and>
            (\<forall>i<length apps. \<exists>e. tasks st' ! i = Finished e)"
  proof -
    from fan_out_extends [OF assms] obtain sched' st' where
      e: "Cancel \<notin> set sched'" "fan_out s ctx orgID apps orgs (sched @ sched') = Some st'"
      "main st' = Drained" by blast
    note inv' = fan_out_inv [OF e(2)]
    from inv'(2) e(3) have c: "closer st' = Closed \<or> closer st' = Closing"
      by (auto simp: inv_ctl_def)
    from drained_sem_empty [OF inv'(1,2) e(3)] all_finished [OF inv'(2) c] e
    have "Cancel \<notin> set sched' \<and>
            fan_out s ctx orgID apps orgs (sched @ sched') = Some st' \<and>
            main st' = Drained \<and> buf (sem st') = [] \<and>
            (\<forall>i<length apps. \<exists>e. tasks st' ! i = Finished e)" by simp
    then show ?thesis by (intro exI)
  qed
  from 1 2 3 4 5 6 7 8 show ?thesis by (intro conjI)
qed

theorem admission_bound_witness:
  "\<exists>st. fan_out ex_service False None [ex_app1, ex_app2] [ex_org] ex_release_schedule = Some st \<and>
        cap (sem st) = 10 \<and> length (filter holds_ticket (tasks st)) = 2 \<and>
        length (buf (sem st)) = 2 \<and>
        (\<exists>k st' e. k \<le> 5 \<and>
           exec (cl ex_service) (build_orgIDToName [ex_org] Map.empty) [ex_app1, ex_app2]
             (replicate k (Task 0 Proceed)) st = Some st' \<and>
           tasks st' ! 0 = AtWgDone e \<and> length (buf (sem st')) = 1)"
proof -
  have "fan_out ex_service False None [ex_app1, ex_app2] [ex_org] ex_release_schedule \<noteq> None"
    by code_simp
  then obtain st :: "nat state" where
    h: "fan_out ex_service False None [ex_app1, ex_app2] [ex_org] ex_release_schedule = Some st"
    by blast
  have b: "length (buf (sem (the (fan_out ex_service False None [ex_app1, ex_app2] [ex_org]
          ex_release_schedule)))) = 2"
    by code_simp
  have t: "holds_ticket (tasks (the (fan_out ex_service False None [ex_app1, ex_app2] [ex_org]
          ex_release_schedule)) ! 0)"
    "0 < length (tasks (the (fan_out ex_service False None [ex_app1, ex_app2] [ex_org]
          ex_release_schedule)))"
    by code_simp+
  from h b have b': "length (buf (sem st)) = 2" by simp
  from h t have t': "0 < length (tasks st)" "holds_ticket (tasks st ! 0)" by simp_all
  note ab = admission_bound [OF h]
  from ab have c: "cap (sem st) = 10" by (elim conjE)
  from ab have e: "length (filter holds_ticket (tasks st)) = length (buf (sem st))"
    by (elim conjE)
  from ab have r: "\<forall>i<length (tasks st). holds_ticket (tasks st ! i) \<longrightarrow>
            (\<exists>st'. step (cl ex_service) (build_orgIDToName [ex_org] Map.empty)
                      [ex_app1, ex_app2] (Task i Proceed) st = Some st' \<and> \<not> panicked st') \<and>
            (\<exists>k st' e. k \<le> 5 \<and>
               exec (cl ex_service) (build_orgIDToName [ex_org] Map.empty) [ex_app1, ex_app2]
                 (replicate k (Task i Proceed)) st = Some st' \<and>
               tasks st' ! i = AtWgDone e \<and>
               Suc (length (buf (sem st'))) = length (buf (sem st)))"
    by (elim conjE)
  from r t' obtain k st' e where "k \<le> 5"
    "exec (cl ex_service) (build_orgIDToName [ex_org] Map.empty) [ex_app1, ex_app2]
       (replicate k (Task 0 Proceed)) st = Some st'"
    "tasks st' ! 0 = AtWgDone e" "Suc (length (buf (sem st'))) = length (buf (sem st))"
    by blast
  with b' have "\<exists>k st' e. k \<le> 5 \<and>
           exec (cl ex_service) (build_orgIDToName [ex_org] Map.empty) [ex_app1, ex_app2]
             (replicate k (Task 0 Proceed)) st = Some st' \<and>
           tasks st' ! 0 = AtWgDone e \<and> length (buf (sem st')) = 1"
    by auto
  with h c e b' show ?thesis by auto
qed

text \<open>
  C3, as stated, fails: a goroutine whose metadata fetch fails returns without sending
  anything, although it was never cancelled. In this run of one application the results
  channel is empty in each of the eleven states, the context is never cancelled, and the
  goroutine finishes at the metadata failure.
\<close>

theorem no_result_for_failed_task:
  "map (length \<circ> buf \<circ> resultsChan)
     (exec_trace (cl ex_failing_service) (build_orgIDToName [ex_org] Map.empty) [ex_app1]
        ex_failing_schedule
        (init_state False [CallGetApplications None, CallGetOrganizations] [ex_app1]))
     = [0, 0, 0, 0, 0, 0, 0, 0, 0, 0, 0] \<and>
   map_option tasks (fan_out ex_failing_service False None [ex_app1] [ex_org] ex_failing_schedule)
     = Some [Finished (ReportInfoFailed (Errorf ''timeout''))] \<and>
   map_option ctx_done
       (fan_out ex_failing_service False None [ex_app1] [ex_org] ex_failing_schedule)
     = Some False \<and>
   map_option main (fan_out ex_failing_service False None [ex_app1] [ex_org] ex_failing_schedule)
     = Some Drained"
  by code_simp

text \<open>
  C3, amended. In every state a run can reach: nothing has panicked (no send on a closed
  channel); the results channel is closed only when every goroutine has been launched and
  has finished; what has been sent is exactly one result, with a nil error, for each
  goroutine that has taken the send branch of the delivery \<^verbatim>\<open>select\<close>, in the order of the
  sends, the received ones appended to the aggregate and the others still in the channel;
  at the end of the \<^verbatim>\<open>range\<close> loop the channel is empty. A step of a goroutine changes
  the channel only by that one send, after which the goroutine is at the deferred release.

  A goroutine at the delivery \<^verbatim>\<open>select\<close> can always send, and the send puts its rows with a
  nil error at the end of the channel; while the context is live the cancellation branch
  cannot be taken, so the send is its only step. If the context is live and is not cancelled
  afterwards, the goroutine stays at the \<^verbatim>\<open>select\<close> or has sent these rows, and at the end
  of the \<^verbatim>\<open>range\<close> loop it has finished after its one send and its rows are in the
  aggregate. No value in the channel carries an error: a step that takes a goroutine to a
  failure return writes one entry of level \<open>Error\<close> to the log and leaves the channel as
  it is, and a failed metadata or violations call is such a step. In a run to the end whose
  context is never cancelled every goroutine has left by the return statement
  \<open>process_application\<close> gives for its application, so it has sent exactly one result if
  that is the delivery and none otherwise.
\<close>

theorem result_channel_protocol:
  assumes "fan_out s ctx orgID apps orgs sched = Some st"
  shows "\<not> panicked st \<and>
         (closed (resultsChan st) \<longrightarrow>
            length (tasks st) = length apps \<and> (\<forall>i<length apps. \<exists>e. tasks st ! i = Finished e)) \<and>
         (\<exists>order k. delivered_in_order st order k) \<and>
         (main st = Drained \<longrightarrow> buf (resultsChan st) = []) \<and>
         (\<forall>i b st'.
            step (cl s) (build_orgIDToName orgs Map.empty) apps (Task i b) st = Some st' \<longrightarrow>
              resultsChan st' = resultsChan st \<or>
              (\<exists>rows. tasks st ! i = AtDeliver rows \<and> b = Proceed \<and>
                 resultsChan st' = chan_send \<lparr>Rows = rows, Err = None\<rparr> (resultsChan st) \<and>
                 tasks st' ! i = AtRelease (Delivered rows))) \<and>
         (\<forall>r\<in>set (buf (resultsChan st)). Err r = None) \<and>
         (\<forall>i<length (tasks st). \<forall>rows. tasks st ! i = AtDeliver rows \<longrightarrow>
            (\<exists>st'. step (cl s) (build_orgIDToName orgs Map.empty) apps (Task i Proceed) st
                     = Some st' \<and> \<not> panicked st' \<and>
               buf (resultsChan st') = buf (resultsChan st) @ [\<lparr>Rows = rows, Err = None\<rparr>] \<and>
               tasks st' ! i = AtRelease (Delivered rows)) \<and>
            (\<not> ctx_done st \<longrightarrow>
               step (cl s) (build_orgIDToName orgs Map.empty) apps (Task i CtxDone) st = None)) \<and>
         (\<forall>sched' st'.
            \<not> ctx_done st \<and> Cancel \<notin> set sched' \<and>
            fan_out s ctx orgID apps orgs (sched @ sched') = Some st' \<longrightarrow>
              (\<forall>i<length (tasks st). \<forall>rows. tasks st ! i = AtDeliver rows \<longrightarrow>
                 (tasks st' ! i = AtDeliver rows \<or> sent_rows (tasks st' ! i) = Some rows) \<and>
                 (main st' = Drained \<longrightarrow>
                    tasks st' ! i = Finished (Delivered rows) \<and>
                    (\<exists>order. distinct order \<and> i \<in> set order \<and>
                       allViolationRows st' =
                         concat (map (\<lambda>j. rows_sent (tasks st' ! j)) order))))) \<and>
         (\<forall>i b st' e.
            step (cl s) (build_orgIDToName orgs Map.empty) apps (Task i b) st = Some st' \<and>
            tasks st' ! i = AtRelease e \<and>
            ((\<exists>err. e = ReportInfoFailed err \<or> e = ViolationsFailed err) \<or> e = ParseFailed) \<longrightarrow>
              resultsChan st' = resultsChan st \<and>
              (\<exists>msg. applog st' = applog st @
                 [\<lparr>lvl = Error, appPublicID = PublicID (apps ! i),
                   appInternalID = Application.ID (apps ! i), msg = msg\<rparr>])) \<and>
         (\<forall>i<length (tasks st). \<forall>err.
            (tasks st ! i = AtReportInfo \<and>
             GetLatestReportInfo (cl s) (ctx_done st) (Application.ID (apps ! i)) = Inl err \<longrightarrow>
               (\<exists>st'. step (cl s) (build_orgIDToName orgs Map.empty) apps (Task i Proceed) st
                        = Some st' \<and>
                  tasks st' ! i = AtRelease (ReportInfoFailed err) \<and>
                  resultsChan st' = resultsChan st \<and>
                  applog st' = applog st @
                    [\<lparr>lvl = Error, appPublicID = PublicID (apps ! i),
                      appInternalID = Application.ID (apps ! i),
                      msg = ''failed to fetch latest report info''\<rparr>])) \<and>
            (\<forall>r n. tasks st ! i = AtViolations r n \<and>
             GetPolicyViolations (cl s) (ctx_done st) (PublicID (apps ! i)) r n = Inl err \<longrightarrow>
               (\<exists>st'. step (cl s) (build_orgIDToName orgs Map.empty) apps (Task i Proceed) st
                        = Some st' \<and>
                  tasks st' ! i = AtRelease (ViolationsFailed err) \<and>
                  resultsChan st' = resultsChan st \<and>
                  applog st' = applog st @
                    [\<lparr>lvl = Error, appPublicID = PublicID (apps ! i),
                      appInternalID = Application.ID (apps ! i),
                      msg = ''failed to fetch policy violations''\<rparr>]))) \<and>
         (\<not> ctx \<and> Cancel \<notin> set sched \<and> main st = Drained \<longrightarrow>
            (\<forall>i<length apps.
               tasks st ! i =
                 Finished (process_application (cl s) (build_orgIDToName orgs Map.empty) False
                   (apps ! i)) \<and>
               sent_rows (tasks st ! i) =
                 (case process_application (cl s) (build_orgIDToName orgs Map.empty) False
                    (apps ! i) of
                    Delivered rows \<Rightarrow> Some rows | _ \<Rightarrow> None)))"
proof -
  let ?m = "build_orgIDToName orgs Map.empty"
  note inv = fan_out_inv [OF assms]
  from inv(2) have 1: "\<not> panicked st" and le: "length (tasks st) \<le> length apps"
    by (simp_all add: inv_ctl_def)
  have 2: "closed (resultsChan st) \<longrightarrow>
      length (tasks st) = length apps \<and> (\<forall>i<length apps. \<exists>e. tasks st ! i = Finished e)"
  proof
    assume "closed (resultsChan st)"
    with inv(2) have c: "closer st = Closed \<or> closer st = Closing" by (simp add: inv_ctl_def)
    from all_launched [OF inv(2) c] all_finished [OF inv(2) c]
    show "length (tasks st) = length apps \<and> (\<forall>i<length apps. \<exists>e. tasks st ! i = Finished e)"
      by simp
  qed
  note 3 = acct_final [OF inv(3)]
  from inv(2) have 4: "main st = Drained \<longrightarrow> buf (resultsChan st) = []"
    by (simp add: inv_ctl_def)
  have 5: "\<forall>i b st'.
            step (cl s) ?m apps (Task i b) st = Some st' \<longrightarrow>
              resultsChan st' = resultsChan st \<or>
              (\<exists>rows. tasks st ! i = AtDeliver rows \<and> b = Proceed \<and>
                 resultsChan st' = chan_send \<lparr>Rows = rows, Err = None\<rparr> (resultsChan st) \<and>
                 tasks st' ! i = AtRelease (Delivered rows))"
  proof (intro allI impI)
    fix i b st'
    assume st: "step (cl s) ?m apps (Task i b) st = Some st'"
    note t = task_step [OF st]
    from t(3) show "resultsChan st' = resultsChan st \<or>
              (\<exists>rows. tasks st ! i = AtDeliver rows \<and> b = Proceed \<and>
                 resultsChan st' = chan_send \<lparr>Rows = rows, Err = None\<rparr> (resultsChan st) \<and>
                 tasks st' ! i = AtRelease (Delivered rows))"
    proof (cases rule: goroutine_cases)
      case (Quiet p')
      then show ?thesis by (simp add: same_shared_def)
    next
      case (Send rows)
      with t(1) show ?thesis by (simp add: goto_def)
    qed (simp_all add: goto_def)
  qed
  have 6: "\<forall>r\<in>set (buf (resultsChan st)). Err r = None"
  proof -
    from 3 obtain order k where "delivered_in_order st order k" by blast
    then have "buf (resultsChan st) =
       map (\<lambda>i. \<lparr>Rows = rows_sent (tasks st ! i), Err = None\<rparr>) (drop k order)"
      by (simp add: delivered_in_order_def)
    then have "map Err (buf (resultsChan st)) = map (\<lambda>i. None) (drop k order)"
      by (simp add: comp_def)
    then have "set (map Err (buf (resultsChan st))) \<subseteq> {None}" by auto
    then show ?thesis by auto
  qed
  have 7: "\<forall>i<length (tasks st). \<forall>rows. tasks st ! i = AtDeliver rows \<longrightarrow>
            (\<exists>st'. step (cl s) ?m apps (Task i Proceed) st = Some st' \<and> \<not> panicked st' \<and>
               buf (resultsChan st') = buf (resultsChan st) @ [\<lparr>Rows = rows, Err = None\<rparr>] \<and>
               tasks st' ! i = AtRelease (Delivered rows)) \<and>
            (\<not> ctx_done st \<longrightarrow> step (cl s) ?m apps (Task i CtxDone) st = None)"
  proof (intro allI impI)
    fix i rows assume i: "i < length (tasks st)" and d: "tasks st ! i = AtDeliver rows"
    from delivery_step [OF inv(2,3) i d, of "cl s" ?m]
    show "(\<exists>st'. step (cl s) ?m apps (Task i Proceed) st = Some st' \<and> \<not> panicked st' \<and>
               buf (resultsChan st') = buf (resultsChan st) @ [\<lparr>Rows = rows, Err = None\<rparr>] \<and>
               tasks st' ! i = AtRelease (Delivered rows)) \<and>
            (\<not> ctx_done st \<longrightarrow> step (cl s) ?m apps (Task i CtxDone) st = None)"
      by (intro conjI)
  qed
  have 8: "\<forall>sched' st'.
            \<not> ctx_done st \<and> Cancel \<notin> set sched' \<and>
            fan_out s ctx orgID apps orgs (sched @ sched') = Some st' \<longrightarrow>
              (\<forall>i<length (tasks st). \<forall>rows. tasks st ! i = AtDeliver rows \<longrightarrow>
                 (tasks st' ! i = AtDeliver rows \<or> sent_rows (tasks st' ! i) = Some rows) \<and>
                 (main st' = Drained \<longrightarrow>
                    tasks st' ! i = Finished (Delivered rows) \<and>
                    (\<exists>order. distinct order \<and> i \<in> set order \<and>
                       allViolationRows st' =
                         concat (map (\<lambda>j. rows_sent (tasks st' ! j)) order))))"
  proof (intro allI impI, elim conjE)
    fix sched' st' i rows
    assume a: "\<not> ctx_done st" "Cancel \<notin> set sched'"
      "fan_out s ctx orgID apps orgs (sched @ sched') = Some st'"
      "i < length (tasks st)" "tasks st ! i = AtDeliver rows"
    show "(tasks st' ! i = AtDeliver rows \<or> sent_rows (tasks st' ! i) = Some rows) \<and>
                 (main st' = Drained \<longrightarrow>
                    tasks st' ! i = Finished (Delivered rows) \<and>
                    (\<exists>order. distinct order \<and> i \<in> set order \<and>
                       allViolationRows st' =
                         concat (map (\<lambda>j. rows_sent (tasks st' ! j)) order)))"
      by (rule live_delivery_run [OF assms a(3,1,2,4,5)])
  qed
  have 9: "\<forall>i b st' e.
            step (cl s) ?m apps (Task i b) st = Some st' \<and>
            tasks st' ! i = AtRelease e \<and>
            ((\<exists>err. e = ReportInfoFailed err \<or> e = ViolationsFailed err) \<or> e = ParseFailed) \<longrightarrow>
              resultsChan st' = resultsChan st \<and>
              (\<exists>msg. applog st' = applog st @
                 [\<lparr>lvl = Error, appPublicID = PublicID (apps ! i),
                   appInternalID = Application.ID (apps ! i), msg = msg\<rparr>])"
  proof (intro allI impI, elim conjE)
    fix i b st' e
    assume a: "step (cl s) ?m apps (Task i b) st = Some st'" "tasks st' ! i = AtRelease e"
      "(\<exists>err. e = ReportInfoFailed err \<or> e = ViolationsFailed err) \<or> e = ParseFailed"
    show "resultsChan st' = resultsChan st \<and>
              (\<exists>msg. applog st' = applog st @
                 [\<lparr>lvl = Error, appPublicID = PublicID (apps ! i),
                   appInternalID = Application.ID (apps ! i), msg = msg\<rparr>])"
      by (rule failure_logged [OF a])
  qed
  have 10: "\<forall>i<length (tasks st). \<forall>err.
            (tasks st ! i = AtReportInfo \<and>
             GetLatestReportInfo (cl s) (ctx_done st) (Application.ID (apps ! i)) = Inl err \<longrightarrow>
               (\<exists>st'. step (cl s) ?m apps (Task i Proceed) st = Some st' \<and>
                  tasks st' ! i = AtRelease (ReportInfoFailed err) \<and>
                  resultsChan st' = resultsChan st \<and>
                  applog st' = applog st @
                    [\<lparr>lvl = Error, appPublicID = PublicID (apps ! i),
                      appInternalID = Application.ID (apps ! i),
                      msg = ''failed to fetch latest report info''\<rparr>])) \<and>
            (\<forall>r n. tasks st ! i = AtViolations r n \<and>
             GetPolicyViolations (cl s) (ctx_done st) (PublicID (apps ! i)) r n = Inl err \<longrightarrow>
               (\<exists>st'. step (cl s) ?m apps (Task i Proceed) st = Some st' \<and>
                  tasks st' ! i = AtRelease (ViolationsFailed err) \<and>
                  resultsChan st' = resultsChan st \<and>
                  applog st' = applog st @
                    [\<lparr>lvl = Error, appPublicID = PublicID (apps ! i),
                      appInternalID = Application.ID (apps ! i),
                      msg = ''failed to fetch policy violations''\<rparr>]))"
  proof (intro allI impI conjI)
    fix i err assume i: "i < length (tasks st)"
    with le have ia: "i < length apps" by simp
    note f = failed_call_step [OF i ia 1, where c = "cl s" and err = err and m = ?m]
    {
      assume "tasks st ! i = AtReportInfo \<and>
             GetLatestReportInfo (cl s) (ctx_done st) (Application.ID (apps ! i)) = Inl err"
      with f(1) show "\<exists>st'. step (cl s) ?m apps (Task i Proceed) st = Some st' \<and>
                  tasks st' ! i = AtRelease (ReportInfoFailed err) \<and>
                  resultsChan st' = resultsChan st \<and>
                  applog st' = applog st @
                    [\<lparr>lvl = Error, appPublicID = PublicID (apps ! i),
                      appInternalID = Application.ID (apps ! i),
                      msg = ''failed to fetch latest report info''\<rparr>]"
        by (rule mp)
    }
    {
      fix r n
      assume "tasks st ! i = AtViolations r n \<and>
             GetPolicyViolations (cl s) (ctx_done st) (PublicID (apps ! i)) r n = Inl err"
      with f(2) [where r = r and n = n] show "\<exists>st'. step (cl s) ?m apps (Task i Proceed) st = Some st' \<and>
                  tasks st' ! i = AtRelease (ViolationsFailed err) \<and>
                  resultsChan st' = resultsChan st \<and>
                  applog st' = applog st @
                    [\<lparr>lvl = Error, appPublicID = PublicID (apps ! i),
                      appInternalID = Application.ID (apps ! i),
                      msg = ''failed to fetch policy violations''\<rparr>]"
        by (rule mp)
    }
  qed
  have 11: "\<not> ctx \<and> Cancel \<notin> set sched \<and> main st = Drained \<longrightarrow>
            (\<forall>i<length apps.
               tasks st ! i = Finished (process_application (cl s) ?m False (apps ! i)) \<and>
               sent_rows (tasks st ! i) =
                 (case process_application (cl s) ?m False (apps ! i) of
                    Delivered rows \<Rightarrow> Some rows | _ \<Rightarrow> None))"
  proof (intro allI impI, elim conjE)
    fix i assume a: "\<not> ctx" "Cancel \<notin> set sched" "main st = Drained" "i < length apps"
    note calm = fan_out_calm [OF assms a(1,2)]
    from drained_calm [OF inv(2) calm a(3,4)]
    have t: "tasks st ! i = Finished (process_application (cl s) ?m False (apps ! i))" .
    then have "sent_rows (tasks st ! i) =
                 (case process_application (cl s) ?m False (apps ! i) of
                    Delivered rows \<Rightarrow> Some rows | _ \<Rightarrow> None)"
      by (simp only: sent_rows_Finished)
    with t show "tasks st ! i = Finished (process_application (cl s) ?m False (apps ! i)) \<and>
               sent_rows (tasks st ! i) =
                 (case process_application (cl s) ?m False (apps ! i) of
                    Delivered rows \<Rightarrow> Some rows | _ \<Rightarrow> None)"
      by (intro conjI)
  qed
  from 1 2 3 4 5 6 7 8 9 10 11 show ?thesis by (intro conjI)
qed

theorem result_channel_protocol_witness:
  "\<exists>st. fan_out ex_service False None [ex_app1, ex_app2] [ex_org] ex_deliver_schedule = Some st \<and>
        \<not> panicked st \<and> \<not> closed (resultsChan st) \<and> buf (resultsChan st) = [] \<and>
        tasks st ! 0 = AtDeliver (convert_rows (ex_rows 0)) \<and>
        (\<exists>st'. step (cl ex_service) (build_orgIDToName [ex_org] Map.empty) [ex_app1, ex_app2]
                  (Task 0 Proceed) st = Some st' \<and> \<not> panicked st' \<and>
           buf (resultsChan st') = [\<lparr>Rows = convert_rows (ex_rows 0), Err = None\<rparr>] \<and>
           tasks st' ! 0 = AtRelease (Delivered (convert_rows (ex_rows 0)))) \<and>
        step (cl ex_service) (build_orgIDToName [ex_org] Map.empty) [ex_app1, ex_app2]
          (Task 0 CtxDone) st = None"
proof -
  let ?f = "fan_out ex_service False None [ex_app1, ex_app2] [ex_org] ex_deliver_schedule"
  have "?f \<noteq> None"
    by code_simp
  then obtain st :: "nat state" where h: "?f = Some st"
    by blast
  have "tasks (the ?f) ! 0 = AtDeliver (convert_rows (ex_rows 0))"
    "0 < length (tasks (the ?f))" "buf (resultsChan (the ?f)) = []"
    "\<not> closed (resultsChan (the ?f))" "\<not> ctx_done (the ?f)"
    by code_simp+
  with h have t: "tasks st ! 0 = AtDeliver (convert_rows (ex_rows 0))" "0 < length (tasks st)"
    "buf (resultsChan st) = []" "\<not> closed (resultsChan st)" "\<not> ctx_done st"
    by simp_all
  note p = result_channel_protocol [OF h]
  from p have np: "\<not> panicked st" by (elim conjE)
  from p have d: "\<forall>i<length (tasks st). \<forall>rows. tasks st ! i = AtDeliver rows \<longrightarrow>
            (\<exists>st'. step (cl ex_service) (build_orgIDToName [ex_org] Map.empty)
                      [ex_app1, ex_app2] (Task i Proceed) st
                     = Some st' \<and> \<not> panicked st' \<and>
               buf (resultsChan st') = buf (resultsChan st) @ [\<lparr>Rows = rows, Err = None\<rparr>] \<and>
               tasks st' ! i = AtRelease (Delivered rows)) \<and>
            (\<not> ctx_done st \<longrightarrow>
               step (cl ex_service) (build_orgIDToName [ex_org] Map.empty) [ex_app1, ex_app2]
                 (Task i CtxDone) st = None)"
    by (elim conjE)
  from d t(1,2,5) have
    "(\<exists>st'. step (cl ex_service) (build_orgIDToName [ex_org] Map.empty) [ex_app1, ex_app2]
                (Task 0 Proceed) st = Some st' \<and> \<not> panicked st' \<and>
        buf (resultsChan st') = buf (resultsChan st) @
          [\<lparr>Rows = convert_rows (ex_rows 0), Err = None\<rparr>] \<and>
        tasks st' ! 0 = AtRelease (Delivered (convert_rows (ex_rows 0)))) \<and>
      step (cl ex_service) (build_orgIDToName [ex_org] Map.empty) [ex_app1, ex_app2]
          (Task 0 CtxDone) st = None"
    by blast
  with h np t show ?thesis by simp
qed

text \<open>
  C4. When the fetched application list is empty, the call returns the error "no
  applications found" whatever the schedule, and the only remote operation performed is the
  application-list fetch: no goroutine is launched, no report metadata and no violation
  data is requested.
\<close>

theorem empty_application_list:
  assumes "GetApplications (cl s) ctx orgID = Inr []"
  shows "GenerateLatestPolicyReport s pk ctx orgID filename sched =
           Some \<lparr>ret_path = [], ret_err = Some (Errorf ''no applications found''),
                 ret_calls = [CallGetApplications orgID]\<rparr>"
  using assms by (simp add: GenerateLatestPolicyReport_def)

theorem empty_application_list_witness:
  "GetApplications (cl (ex_service\<lparr>cl := ex_empty_client\<rparr>)) False None = Inr [] \<and>
   GenerateLatestPolicyReport (ex_service\<lparr>cl := ex_empty_client\<rparr>) ex_packages False None
       ''report.csv'' ex_schedule =
     Some \<lparr>ret_path = [], ret_err = Some (Errorf ''no applications found''),
           ret_calls = [CallGetApplications None]\<rparr>"
proof -
  have h: "GetApplications (cl (ex_service\<lparr>cl := ex_empty_client\<rparr>)) False None = Inr []"
    by (simp add: ex_service_def ex_empty_client_def ex_client_def)
  from h empty_application_list [OF h] show ?thesis by simp
qed

text \<open>
  C5. Report location. When the metadata is absent, or its report location is empty or
  made of white space only, the goroutine logs at level Info and returns (exit \<open>NoReport\<close>).
  When the location is not blank and has no "/report/" marker, or nothing follows the first
  marker, it logs at level Error and returns (exit \<open>ParseFailed\<close>). From either return the
  goroutine only releases its ticket and finishes, leaving the results channel as it is, so
  it has sent no rows. When a report identifier is extracted, it is not empty and it is the
  text after the first "/report/" of the location.
\<close>

theorem report_location_handling:
  "(GetLatestReportInfo c ctx (Application.ID app) = Inr None \<longrightarrow>
      fetch_report_info c m ctx app =
        (AtRelease NoReport, [(Info, ''No recent report found for application, skipping'')])) \<and>
   (\<forall>info. GetLatestReportInfo c ctx (Application.ID app) = Inr (Some info) \<and>
      white_space_only (ReportHTMLURL info) \<longrightarrow>
      fetch_report_info c m ctx app =
        (AtRelease NoReport, [(Info, ''No recent report found for application, skipping'')])) \<and>
   (\<forall>info. GetLatestReportInfo c ctx (Application.ID app) = Inr (Some info) \<and>
      \<not> white_space_only (ReportHTMLURL info) \<and>
      (Index (ReportHTMLURL info) ''/report/'' = None \<or>
       (\<exists>i. Index (ReportHTMLURL info) ''/report/'' = Some i \<and>
            drop (i + length ''/report/'') (ReportHTMLURL info) = [])) \<longrightarrow>
      fetch_report_info c m ctx app =
        (AtRelease ParseFailed, [(Error, ''failed to parse report ID from URL'')])) \<and>
   (\<forall>reportID orgName. fst (fetch_report_info c m ctx app) = AtViolations reportID orgName \<longrightarrow>
      reportID \<noteq> [] \<and>
      (\<exists>info before. GetLatestReportInfo c ctx (Application.ID app) = Inr (Some info) \<and>
         \<not> white_space_only (ReportHTMLURL info) \<and>
         ReportHTMLURL info = before @ ''/report/'' @ reportID \<and>
         (\<forall>j<length before. \<not> prefix ''/report/'' (drop j (ReportHTMLURL info))))) \<and>
   (\<forall>i e st st'. goroutine c m app i Proceed (AtRelease e) st = Some st' \<longrightarrow>
      resultsChan st' = resultsChan st \<and> tasks st' = (tasks st)[i := AtWgDone e]) \<and>
   (\<forall>i e st st'. goroutine c m app i Proceed (AtWgDone e) st = Some st' \<and> \<not> panicked st' \<longrightarrow>
      resultsChan st' = resultsChan st \<and> tasks st' = (tasks st)[i := Finished e]) \<and>
   rows_sent (Finished NoReport :: 'a pc) = [] \<and> rows_sent (Finished ParseFailed :: 'a pc) = []"
proof -
  have 1: "GetLatestReportInfo c ctx (Application.ID app) = Inr None \<longrightarrow>
      fetch_report_info c m ctx app =
        (AtRelease NoReport, [(Info, ''No recent report found for application, skipping'')])"
    by (simp add: fetch_report_info_def)
  have 2: "\<forall>info. GetLatestReportInfo c ctx (Application.ID app) = Inr (Some info) \<and>
      white_space_only (ReportHTMLURL info) \<longrightarrow>
      fetch_report_info c m ctx app =
        (AtRelease NoReport, [(Info, ''No recent report found for application, skipping'')])"
    by (simp add: fetch_report_info_def TrimSpace_empty_iff)
  have 3: "\<forall>info. GetLatestReportInfo c ctx (Application.ID app) = Inr (Some info) \<and>
      \<not> white_space_only (ReportHTMLURL info) \<and>
      (Index (ReportHTMLURL info) ''/report/'' = None \<or>
       (\<exists>i. Index (ReportHTMLURL info) ''/report/'' = Some i \<and>
            drop (i + length ''/report/'') (ReportHTMLURL info) = [])) \<longrightarrow>
      fetch_report_info c m ctx app =
        (AtRelease ParseFailed, [(Error, ''failed to parse report ID from URL'')])"
    by (auto simp: fetch_report_info_def Cut_def TrimSpace_empty_iff)
  have 4: "\<forall>reportID orgName. fst (fetch_report_info c m ctx app) = AtViolations reportID orgName \<longrightarrow>
      reportID \<noteq> [] \<and>
      (\<exists>info before. GetLatestReportInfo c ctx (Application.ID app) = Inr (Some info) \<and>
         \<not> white_space_only (ReportHTMLURL info) \<and>
         ReportHTMLURL info = before @ ''/report/'' @ reportID \<and>
         (\<forall>j<length before. \<not> prefix ''/report/'' (drop j (ReportHTMLURL info))))"
  proof (intro allI impI)
    fix reportID orgName
    assume a: "fst (fetch_report_info c m ctx app) = AtViolations reportID orgName"
    then obtain info before where i: "GetLatestReportInfo c ctx (Application.ID app) = Inr (Some info)"
      and ct: "Cut (ReportHTMLURL info) ''/report/'' = (before, reportID, True)"
      and ne: "reportID \<noteq> []" and nw: "TrimSpace (ReportHTMLURL info) \<noteq> []"
      by (auto simp: fetch_report_info_def split: sum.splits option.splits if_splits prod.splits)
    from nw have "\<not> white_space_only (ReportHTMLURL info)" by (simp add: TrimSpace_empty_iff)
    with Cut_found [OF ct] i ne
    show "reportID \<noteq> [] \<and>
      (\<exists>info before. GetLatestReportInfo c ctx (Application.ID app) = Inr (Some info) \<and>
         \<not> white_space_only (ReportHTMLURL info) \<and>
         ReportHTMLURL info = before @ ''/report/'' @ reportID \<and>
         (\<forall>j<length before. \<not> prefix ''/report/'' (drop j (ReportHTMLURL info))))"
      by blast
  qed
  have 5: "\<forall>i e st st'. goroutine c m app i Proceed (AtRelease e) st = Some st' \<longrightarrow>
      resultsChan st' = resultsChan st \<and> tasks st' = (tasks st)[i := AtWgDone e]"
    by (auto simp: goto_def split: if_splits)
  have 6: "\<forall>i e st st'. goroutine c m app i Proceed (AtWgDone e) st = Some st' \<and> \<not> panicked st' \<longrightarrow>
      resultsChan st' = resultsChan st \<and> tasks st' = (tasks st)[i := Finished e]"
    by (auto simp: goto_def split: if_splits)
  have 7: "rows_sent (Finished NoReport :: 'a pc) = []"
    "rows_sent (Finished ParseFailed :: 'a pc) = []"
    by (simp_all add: rows_sent_def)
  from 1 2 3 4 5 6 7 show ?thesis by (intro conjI)
qed

theorem report_location_handling_witness:
  "white_space_only ''  '' \<and>
   fetch_report_info ex_client Map.empty False ex_app2 =
     (AtRelease NoReport, [(Info, ''No recent report found for application, skipping'')]) \<and>
   fst (fetch_report_info ex_client Map.empty False ex_app1) = AtViolations ''r1'' ''o1''"
proof -
  have "TrimSpace ''  '' = []" by code_simp
  then have w: "white_space_only ''  ''" by (simp add: TrimSpace_empty_iff)
  have a: "GetLatestReportInfo ex_client False (Application.ID ex_app2) =
      Inr (Some \<lparr>ReportHTMLURL = ''  '', Stage = ''build''\<rparr>)"
    by code_simp
  have b: "fst (fetch_report_info ex_client Map.empty False ex_app1) = AtViolations ''r1'' ''o1''"
    by code_simp
  from report_location_handling [of ex_client False ex_app2 Map.empty]
  have "\<forall>info. GetLatestReportInfo ex_client False (Application.ID ex_app2) = Inr (Some info) \<and>
      white_space_only (ReportHTMLURL info) \<longrightarrow>
      fetch_report_info ex_client Map.empty False ex_app2 =
        (AtRelease NoReport, [(Info, ''No recent report found for application, skipping'')])"
    by (elim conjE)
  with a w
  have "fetch_report_info ex_client Map.empty False ex_app2 =
     (AtRelease NoReport, [(Info, ''No recent report found for application, skipping'')])"
    by simp
  with w b show ?thesis by (intro conjI)
qed

text \<open>
  C6, as stated, fails: both remote calls of the one application succeed and two violation
  rows are fetched, the context is cancelled while the goroutine is at the delivery
  \<^verbatim>\<open>select\<close>, the goroutine takes the cancellation branch, and the run ends with an empty
  aggregate; the call returns the path with a nil error after writing no rows.
\<close>

theorem rows_dropped_on_cancellation:
  "calls_succeed (cl ex_cancel_service) (build_orgIDToName [ex_org] Map.empty) ex_app1
     (ex_rows 0) \<and>
   length (ex_rows 0) = 2 \<and>
   GetApplications (cl ex_cancel_service) False None = Inr [ex_app1] \<and>
   map_option main
       (fan_out ex_cancel_service False None [ex_app1] [ex_org] ex_cancel_schedule)
     = Some Drained \<and>
   map_option tasks
       (fan_out ex_cancel_service False None [ex_app1] [ex_org] ex_cancel_schedule)
     = Some [Finished (DeliveryCancelled (convert_rows (ex_rows 0)))] \<and>
   map_option calls
       (fan_out ex_cancel_service False None [ex_app1] [ex_org] ex_cancel_schedule)
     = Some [CallGetApplications None, CallGetOrganizations, CallGetLatestReportInfo ''i1'',
             CallGetPolicyViolations ''shop'' ''r1'' ''Retail''] \<and>
   map_option allViolationRows
       (fan_out ex_cancel_service False None [ex_app1] [ex_org] ex_cancel_schedule)
     = Some [] \<and>
   GenerateLatestPolicyReport ex_cancel_service ex_packages False None ''out.csv''
       ex_cancel_schedule
     = Some \<lparr>ret_path = ''reports_output/out.csv'', ret_err = None,
             ret_calls = [CallGetApplications None, CallGetOrganizations,
                          CallGetLatestReportInfo ''i1'',
                          CallGetPolicyViolations ''shop'' ''r1'' ''Retail'',
                          CallWriteCSV ''reports_output/out.csv'' []]\<rparr>"
  by code_simp

text \<open>
  C6, amended. \<open>to_report_row\<close> copies each of the ten fields, and the conversion loop is
  the map of it, so it keeps length and order. In every state a run can reach, cancelled or
  not, the aggregate is the concatenation of the row lists of the goroutines whose result
  has been received, each kept whole, and each the image under \<open>to_report_row\<close>, in order,
  of the rows a \<^verbatim>\<open>GetPolicyViolations\<close> call for that application returned; at the end of the
  \<^verbatim>\<open>range\<close> loop these are all the goroutines that have sent, and the number of aggregated
  rows is the sum of the numbers of rows sent. In a run to the end whose context is never
  cancelled and in which both remote calls succeed for every application, the number of
  aggregated rows is the sum of the numbers of violation rows, and the aggregate is the
  concatenation of the converted row lists of the applications, taken in some order of the
  applications.
\<close>

theorem mapping_and_aggregation:
  assumes "fan_out s ctx orgID apps orgs sched = Some st"
  shows "(\<forall>r :: 'a ViolationRow.
            Row.Application (to_report_row r) = ViolationRow.Application r \<and>
            Row.Organization (to_report_row r) = ViolationRow.Organization r \<and>
            Row.Policy (to_report_row r) = ViolationRow.Policy r \<and>
            Row.Format (to_report_row r) = ViolationRow.Format r \<and>
            Row.Component (to_report_row r) = ViolationRow.Component r \<and>
            Row.Threat (to_report_row r) = ViolationRow.Threat r \<and>
            Row.PolicyAction (to_report_row r) = ViolationRow.PolicyAction r \<and>
            Row.ConstraintName (to_report_row r) = ViolationRow.ConstraintName r \<and>
            Row.Condition (to_report_row r) = ViolationRow.Condition r \<and>
            Row.CVE (to_report_row r) = ViolationRow.CVE r) \<and>
         (\<forall>rs :: 'a ViolationRow list. convert_rows rs = map to_report_row rs) \<and>
         (\<exists>recv. distinct recv \<and>
            (\<forall>i\<in>set recv. i < length apps \<and>
               (\<exists>cx r n clientRows.
                  GetPolicyViolations (cl s) cx (PublicID (apps ! i)) r n = Inr clientRows \<and>
                  sent_rows (tasks st ! i) = Some (map to_report_row clientRows))) \<and>
            allViolationRows st = concat (map (\<lambda>i. rows_sent (tasks st ! i)) recv) \<and>
            (main st = Drained \<longrightarrow>
               set recv = {i. i < length apps \<and> sent_rows (tasks st ! i) \<noteq> None})) \<and>
         (main st = Drained \<longrightarrow>
            length (allViolationRows st) =
              (\<Sum>i<length apps. length (rows_sent (tasks st ! i)))) \<and>
         (\<not> ctx \<and> Cancel \<notin> set sched \<and> main st = Drained \<longrightarrow>
            (\<forall>vs. (\<forall>i<length apps.
                     calls_succeed (cl s) (build_orgIDToName orgs Map.empty) (apps ! i) (vs i)) \<longrightarrow>
               length (allViolationRows st) = (\<Sum>i<length apps. length (vs i)) \<and>
               (\<exists>order. mset order = mset [0..<length apps] \<and>
                  allViolationRows st = concat (map (\<lambda>i. map to_report_row (vs i)) order))))"
proof -
  let ?m = "build_orgIDToName orgs Map.empty"
  note inv = fan_out_inv [OF assms]
  have 1: "\<forall>r :: 'a ViolationRow.
            Row.Application (to_report_row r) = ViolationRow.Application r \<and>
            Row.Organization (to_report_row r) = ViolationRow.Organization r \<and>
            Row.Policy (to_report_row r) = ViolationRow.Policy r \<and>
            Row.Format (to_report_row r) = ViolationRow.Format r \<and>
            Row.Component (to_report_row r) = ViolationRow.Component r \<and>
            Row.Threat (to_report_row r) = ViolationRow.Threat r \<and>
            Row.PolicyAction (to_report_row r) = ViolationRow.PolicyAction r \<and>
            Row.ConstraintName (to_report_row r) = ViolationRow.ConstraintName r \<and>
            Row.Condition (to_report_row r) = ViolationRow.Condition r \<and>
            Row.CVE (to_report_row r) = ViolationRow.CVE r"
    by (simp add: to_report_row_def)
  have 2: "\<forall>rs :: 'a ViolationRow list. convert_rows rs = map to_report_row rs"
    by (simp add: convert_rows_map)
  note 3 = received_rows [OF inv(3,2) fan_out_rows [OF assms]]
  have 4: "main st = Drained \<longrightarrow>
            length (allViolationRows st) =
              (\<Sum>i<length apps. length (rows_sent (tasks st ! i)))"
    using drained_count [OF inv(3,2)] by blast
  have 5: "\<not> ctx \<and> Cancel \<notin> set sched \<and> main st = Drained \<longrightarrow>
            (\<forall>vs. (\<forall>i<length apps. calls_succeed (cl s) ?m (apps ! i) (vs i)) \<longrightarrow>
               length (allViolationRows st) = (\<Sum>i<length apps. length (vs i)) \<and>
               (\<exists>order. mset order = mset [0..<length apps] \<and>
                  allViolationRows st = concat (map (\<lambda>i. map to_report_row (vs i)) order)))"
  proof (intro impI allI, elim conjE)
    fix vs
    assume nc: "\<not> ctx" "Cancel \<notin> set sched" and dr: "main st = Drained"
      and cs: "\<forall>i<length apps. calls_succeed (cl s) ?m (apps ! i) (vs i)"
    have calm: "inv_calm (cl s) ?m apps st"
      using nc by (intro fan_out_calm [OF assms])
    have t: "tasks st ! i = Finished (Delivered (map to_report_row (vs i)))"
      if "i < length apps" for i
    proof -
      from cs that
      have "calls_succeed (cl s) ?m (apps ! i) (vs i)" by simp
      then have "process_application (cl s) ?m False (apps ! i) = Delivered (convert_rows (vs i))"
        by (rule calls_succeed_process)
      with drained_calm [OF inv(2) calm dr that] show ?thesis
        by (simp add: convert_rows_map)
    qed
    from drained_rows [OF inv(3) inv(2) dr] obtain order where d: "distinct order"
      and so: "set order = {i. i < length apps \<and> sent_rows (tasks st ! i) \<noteq> None}"
      and agg: "allViolationRows st = concat (map (\<lambda>i. rows_sent (tasks st ! i)) order)"
      by (elim exE conjE)
    from so t have so': "set order = {..<length apps}" by auto
    have "map (\<lambda>i. rows_sent (tasks st ! i)) order = map (\<lambda>i. map to_report_row (vs i)) order"
    proof (rule map_cong [OF refl])
      fix i assume "i \<in> set order"
      with so' have "i < length apps" by simp
      then show "rows_sent (tasks st ! i) = map to_report_row (vs i)"
        by (simp add: t rows_sent_def)
    qed
    with agg have agg': "allViolationRows st = concat (map (\<lambda>i. map to_report_row (vs i)) order)"
      by simp
    have "length (allViolationRows st) = sum_list (map (\<lambda>i. length (vs i)) order)"
      unfolding agg' by (simp add: length_concat comp_def)
    also have "\<dots> = sum (\<lambda>i. length (vs i)) (set order)"
      using d by (rule sum_list_distinct_conv_sum_set)
    finally have a: "length (allViolationRows st) = (\<Sum>i<length apps. length (vs i))"
      unfolding so' .
    have "mset order = mset [0..<length apps]"
    proof -
      have "distinct [0..<length apps]" by simp
      moreover have "set order = set [0..<length apps]"
        using so' by (simp add: lessThan_atLeast0)
      ultimately show ?thesis
        using d set_eq_iff_mset_eq_distinct [of order "[0..<length apps]"] by blast
    qed
    with agg' have b: "\<exists>order. mset order = mset [0..<length apps] \<and>
            allViolationRows st = concat (map (\<lambda>i. map to_report_row (vs i)) order)"
      by (intro exI conjI)
    from a b show "length (allViolationRows st) = (\<Sum>i<length apps. length (vs i)) \<and>
               (\<exists>order. mset order = mset [0..<length apps] \<and>
                  allViolationRows st = concat (map (\<lambda>i. map to_report_row (vs i)) order))"
      by (intro conjI)
  qed
  from 1 2 3 4 5 show ?thesis by (intro conjI)
qed

theorem mapping_and_aggregation_witness:
  "\<exists>st. fan_out (ex_service\<lparr>cl := ex_client_ok\<rparr>) False None [ex_app1, ex_app2] [ex_org]
            ex_schedule3 = Some st \<and>
     allViolationRows st = map to_report_row (ex_rows 1) @ map to_report_row (ex_rows 0) \<and>
     length (allViolationRows st) = 3"
proof -
  let ?s = "ex_service\<lparr>cl := ex_client_ok\<rparr>"
  have "fan_out ?s False None [ex_app1, ex_app2] [ex_org] ex_schedule3 \<noteq> None"
    by code_simp
  then obtain st :: "nat state" where
    h: "fan_out ?s False None [ex_app1, ex_app2] [ex_org] ex_schedule3 = Some st"
    by blast
  have d: "main (the (fan_out ?s False None [ex_app1, ex_app2] [ex_org] ex_schedule3)) = Drained"
    by code_simp
  have r: "allViolationRows (the (fan_out ?s False None [ex_app1, ex_app2] [ex_org] ex_schedule3))
      = map to_report_row (ex_rows 1) @ map to_report_row (ex_rows 0)"
    by code_simp
  have c: "Cancel \<notin> set ex_schedule3" by (simp add: ex_schedule3_def)
  have "calls_succeed (cl ?s) (build_orgIDToName [ex_org] Map.empty) ex_app1 (ex_rows 0)"
    "calls_succeed (cl ?s) (build_orgIDToName [ex_org] Map.empty) ex_app2 (ex_rows 1)"
    by code_simp+
  then have s: "\<forall>i<length [ex_app1, ex_app2].
      calls_succeed (cl ?s) (build_orgIDToName [ex_org] Map.empty) ([ex_app1, ex_app2] ! i)
        (ex_rows i)"
    by (simp add: less_Suc_eq)
  from h d have d': "main st = Drained" by simp
  from mapping_and_aggregation [OF h]
  have "\<not> False \<and> Cancel \<notin> set ex_schedule3 \<and> main st = Drained \<longrightarrow>
            (\<forall>vs. (\<forall>i<length [ex_app1, ex_app2].
                     calls_succeed (cl ?s) (build_orgIDToName [ex_org] Map.empty)
                       ([ex_app1, ex_app2] ! i) (vs i)) \<longrightarrow>
               length (allViolationRows st) = (\<Sum>i<length [ex_app1, ex_app2]. length (vs i)) \<and>
               (\<exists>order. mset order = mset [0..<length [ex_app1, ex_app2]] \<and>
                  allViolationRows st = concat (map (\<lambda>i. map to_report_row (vs i)) order)))"
    by (elim conjE)
  with c d' have "\<forall>vs. (\<forall>i<length [ex_app1, ex_app2].
                     calls_succeed (cl ?s) (build_orgIDToName [ex_org] Map.empty)
                       ([ex_app1, ex_app2] ! i) (vs i)) \<longrightarrow>
               length (allViolationRows st) = (\<Sum>i<length [ex_app1, ex_app2]. length (vs i))"
    by blast
  with s have "length (allViolationRows st) = (\<Sum>i<length [ex_app1, ex_app2]. length (ex_rows i))"
    by blast
  then have "length (allViolationRows st) = 3"
    by (simp add: ex_rows_def lessThan_Suc numeral_2_eq_2)
  with h r show ?thesis by simp
qed

text \<open>
  C7. Organization name. The table built from the organization list maps an identifier to
  the name of the last organization of the list with that identifier; it is an argument of
  the run, built before the first launch and never changed. For an application whose
  report identifier has been parsed: when its organization identifier is in the table the
  name is the table's value; when it is not, the name is the identifier itself and a warning
  is logged, and in both cases the goroutine goes on to the violations call, which it makes
  with that name.
\<close>

theorem organization_name_resolution:
  assumes "GetLatestReportInfo c ctx (Application.ID app) = Inr (Some info)"
    "TrimSpace (ReportHTMLURL info) \<noteq> []"
    "Cut (ReportHTMLURL info) ''/report/'' = (before, reportID, True)" "reportID \<noteq> []"
  shows "build_orgIDToName orgs Map.empty =
           map_of (rev (map (\<lambda>org. (Organization.ID org, Organization.Name org)) orgs)) \<and>
         (\<forall>name. build_orgIDToName orgs Map.empty (OrganizationID app) = Some name \<longrightarrow>
            fetch_report_info c (build_orgIDToName orgs Map.empty) ctx app =
              (AtViolations reportID name, [(Debug, ''Parsed report ID'')])) \<and>
         (build_orgIDToName orgs Map.empty (OrganizationID app) = None \<longrightarrow>
            fetch_report_info c (build_orgIDToName orgs Map.empty) ctx app =
              (AtViolations reportID (OrganizationID app),
               [(Debug, ''Parsed report ID''),
                (Warn, ''organization name not found, using ID as fallback'')])) \<and>
         (\<forall>m i orgName st. \<exists>st'.
            goroutine c m app i Proceed (AtViolations reportID orgName) st = Some st' \<and>
            calls st' = calls st @ [CallGetPolicyViolations (PublicID app) reportID orgName])"
proof -
  have 1: "build_orgIDToName orgs Map.empty =
           map_of (rev (map (\<lambda>org. (Organization.ID org, Organization.Name org)) orgs))"
    by (simp add: build_orgIDToName_map_of)
  have 2: "\<forall>name. build_orgIDToName orgs Map.empty (OrganizationID app) = Some name \<longrightarrow>
            fetch_report_info c (build_orgIDToName orgs Map.empty) ctx app =
              (AtViolations reportID name, [(Debug, ''Parsed report ID'')])"
    using assms by (simp add: fetch_report_info_def)
  have 3: "build_orgIDToName orgs Map.empty (OrganizationID app) = None \<longrightarrow>
            fetch_report_info c (build_orgIDToName orgs Map.empty) ctx app =
              (AtViolations reportID (OrganizationID app),
               [(Debug, ''Parsed report ID''),
                (Warn, ''organization name not found, using ID as fallback'')])"
    using assms by (simp add: fetch_report_info_def)
  have 4: "\<forall>m i orgName st. \<exists>st'.
            goroutine c m app i Proceed (AtViolations reportID orgName) st = Some st' \<and>
            calls st' = calls st @ [CallGetPolicyViolations (PublicID app) reportID orgName]"
    by (simp add: goto_def app_logs_def called_def split: prod.split)
  from 1 2 3 4 show ?thesis by (intro conjI)
qed

theorem organization_name_resolution_witness:
  "fetch_report_info ex_client (build_orgIDToName [ex_org] Map.empty) False ex_app1 =
     (AtViolations ''r1'' ''Retail'', [(Debug, ''Parsed report ID'')]) \<and>
   fetch_report_info ex_client_ok (build_orgIDToName [ex_org] Map.empty) False ex_app2 =
     (AtViolations ''r1'' ''o2'',
      [(Debug, ''Parsed report ID''),
       (Warn, ''organization name not found, using ID as fallback'')])"
proof -
  have a: "GetLatestReportInfo ex_client False (Application.ID ex_app1) =
      Inr (Some \<lparr>ReportHTMLURL = ''ui/links/application/shop/report/r1'', Stage = ''build''\<rparr>)"
    by (simp add: ex_client_def ex_app1_def)
  have b: "TrimSpace (ReportHTMLURL
      \<lparr>ReportHTMLURL = ''ui/links/application/shop/report/r1'', Stage = ''build''\<rparr>) \<noteq> []"
    by code_simp
  have c: "Cut (ReportHTMLURL
      \<lparr>ReportHTMLURL = ''ui/links/application/shop/report/r1'', Stage = ''build''\<rparr>) ''/report/''
      = (''ui/links/application/shop'', ''r1'', True)"
    by (simp add: Cut_def)
  have a': "GetLatestReportInfo ex_client_ok False (Application.ID ex_app2) =
      Inr (Some \<lparr>ReportHTMLURL = ''ui/links/application/x/report/r1'', Stage = ''build''\<rparr>)"
    by (simp add: ex_client_ok_def ex_client_def)
  have b': "TrimSpace (ReportHTMLURL
      \<lparr>ReportHTMLURL = ''ui/links/application/x/report/r1'', Stage = ''build''\<rparr>) \<noteq> []"
    by code_simp
  have c': "Cut (ReportHTMLURL
      \<lparr>ReportHTMLURL = ''ui/links/application/x/report/r1'', Stage = ''build''\<rparr>) ''/report/''
      = (''ui/links/application/x'', ''r1'', True)"
    by (simp add: Cut_def)
  have m: "build_orgIDToName [ex_org] Map.empty (OrganizationID ex_app1) = Some ''Retail''"
    "build_orgIDToName [ex_org] Map.empty (OrganizationID ex_app2) = None"
    by (simp_all add: ex_org_def ex_app1_def ex_app2_def)
  from organization_name_resolution [OF a b c, of "[ex_org]"]
    organization_name_resolution [OF a' b' c', of "[ex_org]"] m
  show ?thesis by (simp add: ex_app2_def)
qed

text \<open>
  C8, as stated, fails: the ceiling is not read from the configuration. Under a
  configuration that carries a ceiling of 3, the semaphore has capacity 10 and four
  goroutines hold a ticket at once.
\<close>

theorem ceiling_configured_counterexample:
  "Config.more (cfg ex_limited_service) = 3 \<and>
   map_option (cap \<circ> sem)
     (fan_out ex_limited_service False None ex_four_apps [ex_org] ex_four_acquire) = Some 10 \<and>
   map_option (length \<circ> filter holds_ticket \<circ> tasks)
     (fan_out ex_limited_service False None ex_four_apps [ex_org] ex_four_acquire) = Some 4"
  by code_simp

text \<open>
  C8, amended. The concurrency ceiling is the constant 10 whatever the configuration: two
  services with the same client run alike under every schedule, the semaphore has capacity
  10 and at most 10 goroutines hold a ticket.
\<close>

theorem ceiling_is_constant:
  assumes "cl s' = cl s" "fan_out s ctx orgID apps orgs sched = Some st"
  shows "fan_out s' ctx orgID apps orgs sched = Some st \<and> cap (sem st) = 10 \<and>
         length (filter holds_ticket (tasks st)) \<le> 10"
proof -
  from fan_out_inv(1) [OF assms(2)] have "cap (sem st) = 10"
    "length (filter holds_ticket (tasks st)) \<le> 10"
    by (simp_all add: inv_sem_def)
  with fan_out_cl [OF assms(1)] assms(2) show ?thesis by simp
qed

theorem ceiling_is_constant_witness:
  "\<exists>st. fan_out ex_limited_service False None ex_four_apps [ex_org] ex_four_acquire = Some st \<and>
        fan_out ex_service False None ex_four_apps [ex_org] ex_four_acquire = Some st \<and>
        cap (sem st) = 10"
proof -
  have "fan_out ex_service False None ex_four_apps [ex_org] ex_four_acquire \<noteq> None"
    by code_simp
  then obtain st :: "nat state" where
    h: "fan_out ex_service False None ex_four_apps [ex_org] ex_four_acquire = Some st"
    by blast
  have c: "cl ex_limited_service = cl ex_service"
    by (simp add: ex_limited_service_def ex_service_def)
  from ceiling_is_constant [OF c h] h show ?thesis by blast
qed

text \<open>
  C9. The call returns under some schedule. Whenever it returns an error, the returned path
  is the empty string, and the error is one of the four fatal ones: the wrapped failure of
  the application-list fetch, "no applications found", the wrapped failure of the
  organization-list fetch, or the wrapped failure of the CSV write. Whenever it returns a
  nil error, the returned path is the join of the configured output directory and the file
  name.
\<close>

theorem returned_path:
  "(\<exists>sched r. GenerateLatestPolicyReport s pk ctx orgID filename sched = Some r) \<and>
   (\<forall>sched r. GenerateLatestPolicyReport s pk ctx orgID filename sched = Some r \<longrightarrow>
      (ret_err r \<noteq> None \<longrightarrow>
         ret_path r = [] \<and>
         ((\<exists>e. GetApplications (cl s) ctx orgID = Inl e \<and>
               ret_err r = Some (Wrapf ''get applications'' e)) \<or>
          (GetApplications (cl s) ctx orgID = Inr [] \<and>
               ret_err r = Some (Errorf ''no applications found'')) \<or>
          (\<exists>e. GetOrganizations (cl s) ctx = Inl e \<and>
               ret_err r = Some (Wrapf ''get organizations'' e)) \<or>
          (\<exists>e rows. WriteCSV pk (Join pk (OutputDir (cfg s)) filename) rows = Some e \<and>
               ret_err r = Some (Wrapf ''write csv'' e)))) \<and>
      (ret_err r = None \<longrightarrow> ret_path r = Join pk (OutputDir (cfg s)) filename))"
proof (intro conjI allI impI)
  show "\<exists>sched r. GenerateLatestPolicyReport s pk ctx orgID filename sched = Some r"
    by (rule returns)
next
  fix sched r
  assume "GenerateLatestPolicyReport s pk ctx orgID filename sched = Some r"
    and "ret_err r \<noteq> None"
  then show "ret_path r = []"
    by (auto simp: GenerateLatestPolicyReport_def Let_def
        split: sum.splits if_splits option.splits)
next
  fix sched r
  assume "GenerateLatestPolicyReport s pk ctx orgID filename sched = Some r"
    and "ret_err r \<noteq> None"
  then show "(\<exists>e. GetApplications (cl s) ctx orgID = Inl e \<and>
               ret_err r = Some (Wrapf ''get applications'' e)) \<or>
          (GetApplications (cl s) ctx orgID = Inr [] \<and>
               ret_err r = Some (Errorf ''no applications found'')) \<or>
          (\<exists>e. GetOrganizations (cl s) ctx = Inl e \<and>
               ret_err r = Some (Wrapf ''get organizations'' e)) \<or>
          (\<exists>e rows. WriteCSV pk (Join pk (OutputDir (cfg s)) filename) rows = Some e \<and>
               ret_err r = Some (Wrapf ''write csv'' e))"
    by (auto simp: GenerateLatestPolicyReport_def Let_def
        split: sum.splits if_splits option.splits)
next
  fix sched r
  assume "GenerateLatestPolicyReport s pk ctx orgID filename sched = Some r"
    and "ret_err r = None"
  then show "ret_path r = Join pk (OutputDir (cfg s)) filename"
    by (auto simp: GenerateLatestPolicyReport_def Let_def
        split: sum.splits if_splits option.splits)
qed

theorem returned_path_witness:
  "(\<exists>r. GenerateLatestPolicyReport ex_service ex_packages False None ''report.csv'' ex_schedule
          = Some r \<and> ret_err r = None \<and> ret_path r = ''reports_output/report.csv'') \<and>
   (\<exists>r. GenerateLatestPolicyReport (ex_service\<lparr>cl := ex_empty_client\<rparr>) ex_packages False
            None ''report.csv'' [] = Some r \<and> ret_err r \<noteq> None \<and> ret_path r = [])"
proof -
  have "GenerateLatestPolicyReport ex_service ex_packages False None ''report.csv'' ex_schedule
          \<noteq> None"
    by code_simp
  then obtain r where
    h: "GenerateLatestPolicyReport ex_service ex_packages False None ''report.csv'' ex_schedule
          = Some r"
    by blast
  have e: "ret_err (the (GenerateLatestPolicyReport ex_service ex_packages False None
      ''report.csv'' ex_schedule)) = None"
    by code_simp
  from returned_path [of ex_service ex_packages False None "''report.csv''"] h e
  have 1: "ret_err r = None \<and> ret_path r = ''reports_output/report.csv''"
    by (simp add: ex_packages_def ex_service_def)
  have "GenerateLatestPolicyReport (ex_service\<lparr>cl := ex_empty_client\<rparr>) ex_packages False
            None ''report.csv'' [] \<noteq> None"
    by code_simp
  then obtain r' where
    h': "GenerateLatestPolicyReport (ex_service\<lparr>cl := ex_empty_client\<rparr>) ex_packages False
            None ''report.csv'' [] = Some r'"
    by blast
  have e': "ret_err (the (GenerateLatestPolicyReport (ex_service\<lparr>cl := ex_empty_client\<rparr>)
      ex_packages False None ''report.csv'' [])) \<noteq> None"
    by code_simp
  from returned_path [of "ex_service\<lparr>cl := ex_empty_client\<rparr>" ex_packages False None
      "''report.csv''"] h' e'
  have 2: "ret_err r' \<noteq> None \<and> ret_path r' = []"
    by simp
  from h 1 h' 2 show ?thesis by blast
qed

text \<open>
  C10. Delivery does not block. The results channel has capacity \<^verbatim>\<open>len(apps)\<close> and holds
  at most one value for each goroutine that has sent; a goroutine that has sent never
  changes the channel again. So in every state a run can reach, also while the caller is
  still launching, a goroutine at the delivery \<^verbatim>\<open>select\<close> finds room and can send at once,
  without a panic. Before the end of the \<^verbatim>\<open>range\<close> loop some goroutine can always take a
  step of its own (a cancellation of the context is not counted), every run can be continued
  to that end without a cancellation, and no run has more than \<^verbatim>\<open>15 * len(apps) + 7\<close> steps.
\<close>

theorem delivery_never_blocks:
  assumes "fan_out s ctx orgID apps orgs sched = Some st"
  shows "cap (resultsChan st) = length apps \<and>
         length (buf (resultsChan st)) \<le> length (filter (\<lambda>p. sent_rows p \<noteq> None) (tasks st)) \<and>
         (\<forall>i rows. i < length (tasks st) \<and> tasks st ! i = AtDeliver rows \<longrightarrow>
            length (buf (resultsChan st)) < cap (resultsChan st) \<and>
            (\<exists>st'. step (cl s) (build_orgIDToName orgs Map.empty) apps (Task i Proceed) st = Some st' \<and>
                   \<not> panicked st' \<and> tasks st' ! i = AtRelease (Delivered rows) \<and>
                   buf (resultsChan st') = buf (resultsChan st) @ [\<lparr>Rows = rows, Err = None\<rparr>])) \<and>
         (\<forall>i b st'.
            step (cl s) (build_orgIDToName orgs Map.empty) apps (Task i b) st = Some st' \<and>
            sent_rows (tasks st ! i) \<noteq> None \<longrightarrow> resultsChan st' = resultsChan st) \<and>
         (main st \<noteq> Drained \<longrightarrow>
            (\<exists>ev st'. ev \<noteq> Cancel \<and>
               step (cl s) (build_orgIDToName orgs Map.empty) apps ev st = Some st')) \<and>
         (\<exists>sched' st'. Cancel \<notin> set sched' \<and>
            fan_out s ctx orgID apps orgs (sched @ sched') = Some st' \<and> main st' = Drained) \<and>
         length sched \<le> 15 * length apps + 7"
proof -
  let ?m = "build_orgIDToName orgs Map.empty"
  note inv = fan_out_inv [OF assms]
  from inv(2) have 1: "cap (resultsChan st) = length apps" and np: "\<not> panicked st"
    and le: "length (tasks st) \<le> length apps"
    by (simp_all add: inv_ctl_def)
  note 2 = sent_bound [OF inv(3)]
  have 3: "\<forall>i rows. i < length (tasks st) \<and> tasks st ! i = AtDeliver rows \<longrightarrow>
            length (buf (resultsChan st)) < cap (resultsChan st) \<and>
            (\<exists>st'. step (cl s) ?m apps (Task i Proceed) st = Some st' \<and>
                   \<not> panicked st' \<and> tasks st' ! i = AtRelease (Delivered rows) \<and>
                   buf (resultsChan st') = buf (resultsChan st) @ [\<lparr>Rows = rows, Err = None\<rparr>])"
  proof (intro allI impI, elim conjE)
    fix i rows
    assume i: "i < length (tasks st)" and d: "tasks st ! i = AtDeliver rows"
    from i have "tasks st ! i \<in> set (tasks st)" by (rule nth_mem)
    moreover from d have "\<not> sent_rows (tasks st ! i) \<noteq> None" by simp
    ultimately
    have "length (filter (\<lambda>p. sent_rows p \<noteq> None) (tasks st)) < length (tasks st)"
      by (rule length_filter_less)
    with 2 le 1 have room: "length (buf (resultsChan st)) < cap (resultsChan st)" by simp
    have nc: "\<not> closed (resultsChan st)"
    proof
      assume "closed (resultsChan st)"
      with inv(2) have c: "closer st = Closed \<or> closer st = Closing" by (simp add: inv_ctl_def)
      from all_launched [OF inv(2) c] i have "i < length apps" by simp
      from all_finished [OF inv(2) c this] d show False by simp
    qed
    from i le d np nc room
    show "length (buf (resultsChan st)) < cap (resultsChan st) \<and>
            (\<exists>st'. step (cl s) ?m apps (Task i Proceed) st = Some st' \<and>
                   \<not> panicked st' \<and> tasks st' ! i = AtRelease (Delivered rows) \<and>
                   buf (resultsChan st') = buf (resultsChan st) @ [\<lparr>Rows = rows, Err = None\<rparr>])"
      by (simp add: step_def can_send_def goto_def chan_send_def)
  qed
  have 4: "\<forall>i b st'. step (cl s) ?m apps (Task i b) st = Some st' \<and>
            sent_rows (tasks st ! i) \<noteq> None \<longrightarrow> resultsChan st' = resultsChan st"
  proof (intro allI impI, elim conjE)
    fix i b st'
    assume st: "step (cl s) ?m apps (Task i b) st = Some st'"
      and sr: "sent_rows (tasks st ! i) \<noteq> None"
    note t = task_step [OF st]
    from t(3) show "resultsChan st' = resultsChan st"
    proof (cases rule: goroutine_cases)
      case (Quiet p')
      then show ?thesis by (simp add: same_shared_def)
    qed (use sr in \<open>simp_all add: goto_def\<close>)
  qed
  have 5: "main st \<noteq> Drained \<longrightarrow>
      (\<exists>ev st'. ev \<noteq> Cancel \<and> step (cl s) ?m apps ev st = Some st')"
  proof
    assume nd: "main st \<noteq> Drained"
    show "\<exists>ev st'. ev \<noteq> Cancel \<and> step (cl s) ?m apps ev st = Some st'"
    proof (cases "buf (resultsChan st) = [] \<or> main st \<noteq> Ranging")
      case True
      from progress [OF inv(1,2) nd True] show ?thesis .
    next
      case False
      then show ?thesis by (intro progress_receive [OF inv(2)]) simp_all
    qed
  qed
  note 6 = fan_out_extends [OF assms]
  note 7 = fan_out_bounded [OF assms]
  from 1 2 3 4 5 6 7 show ?thesis by (intro conjI)
qed

theorem delivery_never_blocks_witness:
  "\<exists>st. fan_out ex_service False None [ex_app1, ex_app2] [ex_org]
          [Launch, Task 0 Proceed, Task 0 Proceed, Task 0 Proceed, Task 0 Proceed] = Some st \<and>
        main st = Launching \<and>
        tasks st ! 0 = AtDeliver (convert_rows [ex_row ''sec-high'' 9, ex_row ''sec-low'' 2]) \<and>
        cap (resultsChan st) = 2 \<and> length (buf (resultsChan st)) < cap (resultsChan st)"
proof -
  let ?sched = "[Launch, Task 0 Proceed, Task 0 Proceed, Task 0 Proceed, Task 0 Proceed]"
  have "fan_out ex_service False None [ex_app1, ex_app2] [ex_org] ?sched \<noteq> None"
    by code_simp
  then obtain st :: "nat state" where
    h: "fan_out ex_service False None [ex_app1, ex_app2] [ex_org] ?sched = Some st"
    by blast
  have m: "main (the (fan_out ex_service False None [ex_app1, ex_app2] [ex_org] ?sched))
      = Launching"
    by code_simp
  have t: "tasks (the (fan_out ex_service False None [ex_app1, ex_app2] [ex_org] ?sched))
      = [AtDeliver (convert_rows [ex_row ''sec-high'' 9, ex_row ''sec-low'' 2])]"
    by code_simp
  from h t have d: "0 < length (tasks st) \<and>
      tasks st ! 0 = AtDeliver (convert_rows [ex_row ''sec-high'' 9, ex_row ''sec-low'' 2])"
    by simp
  from delivery_never_blocks [OF h] have c: "cap (resultsChan st) = length [ex_app1, ex_app2]"
    by (elim conjE)
  from delivery_never_blocks [OF h] have r: "\<forall>i rows. i < length (tasks st) \<and> tasks st ! i = AtDeliver rows \<longrightarrow>
      length (buf (resultsChan st)) < cap (resultsChan st) \<and>
            (\<exists>st'. step (cl ex_service) (build_orgIDToName [ex_org] Map.empty)
                       [ex_app1, ex_app2] (Task i Proceed) st = Some st' \<and>
                   \<not> panicked st' \<and> tasks st' ! i = AtRelease (Delivered rows) \<and>
                   buf (resultsChan st') = buf (resultsChan st) @ [\<lparr>Rows = rows, Err = None\<rparr>])"
    by (elim conjE)
  from r d have "length (buf (resultsChan st)) < cap (resultsChan st)" by blast
  with h m d c show ?thesis by simp
qed

end
